theory Spec2Isabelle
  imports Complex_Main "HOL-Library.Product_Lexorder" "HOL-Library.Sublist" "HOL-Library.Multiset"
begin

section \<open>Entity linking of DeepPavlov: a shallow embedding\<close>

text \<open>
  The development embeds \<^verbatim>\<open>EntityLinkerSep\<close> of
  \<^verbatim>\<open>deeppavlov/models/entity_linking/entity_linking_sep.py\<close>, the sentence loop of
  \<^verbatim>\<open>NerChunker.__call__\<close> and the places where \<^verbatim>\<open>EntityLinker\<close> of
  \<^verbatim>\<open>entity_linking.py\<close> differs from \<^verbatim>\<open>EntityLinkerSep\<close>.

  Conventions.
  \<^item> Text handled by the linker (mentions, words, sentences) is a Python \<^verbatim>\<open>str\<close>: a list
    of code points, \<open>ustr\<close>. Entity ids, tags and labels are opaque to the linker but for
    the test \<^verbatim>\<open>startswith("Q")\<close> and the slice \<^verbatim>\<open>[1:]\<close>; they are HOL strings.
  \<^item> Python floats are idealised as reals: sums, quotients and comparisons are exact.
  \<^item> A \<^verbatim>\<open>dict\<close> is an association list in insertion order (a new key is appended, an
    existing key keeps its place); a \<^verbatim>\<open>set\<close> is a duplicate-free list in its iteration order.
  \<^item> Every \<^verbatim>\<open>raise\<close> of the interpreter is a value \<open>Inl e\<close>; a \<^verbatim>\<open>for\<close> loop whose
    body may raise is \<open>foldl_r\<close> or \<open>map_r\<close>.
  \<^item> Budgets and cell counts of the configuration are natural numbers.
\<close>

subsection \<open>Values and errors\<close>

type_synonym ustr = "nat list"

datatype error =
  KeyError | IndexError | NameError | AttributeError | ZeroDivisionError
  | UnboundLocalError | ValueError

text \<open>A ranking result is a single entity id (single-answer mode) or a list of ids.\<close>

datatype ids = Single string | Many "string list"

datatype labels = LSingle string | LMany "string list"

text \<open>
  A confidence is the tuple (substring score, popularity, rerank score), or the pair
  (substring score, popularity); without reranking \<^verbatim>\<open>link_entities\<close> slices the id string itself
  (\<^verbatim>\<open>candidate_entity[1:]\<close> after \<^verbatim>\<open>candidate_entities\<close> was rebound to the ids).
\<close>

datatype conf = Conf real int real | ConfStr string

datatype confs = CSingle conf | CMany "conf list"

subsection \<open>Loops that may raise\<close>

fun foldl_r :: "('b \<Rightarrow> 'a \<Rightarrow> error + 'b) \<Rightarrow> 'b \<Rightarrow> 'a list \<Rightarrow> error + 'b" where
  "foldl_r f b [] = Inr b"
| "foldl_r f b (x # xs) = (case f b x of Inl e \<Rightarrow> Inl e | Inr b' \<Rightarrow> foldl_r f b' xs)"

fun map_r :: "('a \<Rightarrow> error + 'b) \<Rightarrow> 'a list \<Rightarrow> error + 'b list" where
  "map_r f [] = Inr []"
| "map_r f (x # xs) =
     (case f x of
        Inl e \<Rightarrow> Inl e
      | Inr y \<Rightarrow> (case map_r f xs of Inl e \<Rightarrow> Inl e | Inr ys \<Rightarrow> Inr (y # ys)))"

subsection \<open>Dictionaries in insertion order\<close>

fun dict_upd :: "('k \<times> 'v) list \<Rightarrow> 'k \<Rightarrow> 'v \<Rightarrow> ('k \<times> 'v) list" where
  "dict_upd [] k v = [(k, v)]"
| "dict_upd ((k', v') # kvs) k v =
     (if k' = k then (k, v) # kvs else (k', v') # dict_upd kvs k v)"

subsection \<open>The linker's tables, collaborators and configuration\<close>

text \<open>
  \<open>word_to_idlist\<close> is the inverted index, \<^verbatim>\<open>word_list = list(word_to_idlist.keys())\<close> its
  keys in order. \<open>morph_parse\<close>, \<open>faiss_search\<close> (vectorizer and index together: for a list
  of words the arrays \<^verbatim>\<open>D_all\<close> and \<^verbatim>\<open>I_all\<close>), \<open>batch_rank_rels\<close> and
  \<open>count_tokens\<close> (\<^verbatim>\<open>len(re.findall(self.re_tokenizer, s))\<close>) are the external collaborators.
  \<open>set_order\<close> is the order in which Python iterates over a set of entities, given the
  elements in the order in which they were inserted: it depends on the hash values, so it
  is left open.
\<close>

record linker =
  stopwords :: "ustr set"
  word_to_idlist :: "(ustr \<times> (string \<times> nat) list) list"
  entities_ranking_dict :: "string \<rightharpoonup> int"
  entities_types_sets :: "string \<rightharpoonup> string set"
  q_to_label :: "string \<rightharpoonup> string"
  morph_parse :: "ustr \<Rightarrow> ustr"
  faiss_search :: "ustr list \<Rightarrow> nat \<Rightarrow> real list list \<times> int list list"
  batch_rank_rels :: "ustr list \<Rightarrow> string list list \<Rightarrow> (string \<times> real) list list"
  count_tokens :: "ustr \<Rightarrow> nat"
  set_order :: "(string \<times> nat) list \<Rightarrow> (string \<times> nat) list"
  num_faiss_candidate_entities :: nat
  num_entities_for_bert_ranking :: nat
  num_faiss_cells :: nat
  num_entities_to_return :: nat
  use_descriptions :: bool
  return_confidences :: bool
  include_mention :: bool
  max_text_len :: int
  full_paragraph :: bool
  max_paragraph_len :: nat

definition word_list :: "linker \<Rightarrow> ustr list" where
  "word_list L = map fst (word_to_idlist L)"

text \<open>
  The deny-listed tokens \<^verbatim>\<open>self.not_found_tokens\<close>, seven Cyrillic strings (in Latin
  transliteration: ooo, oao, fgup, mup, aktsionernoe obshchestvo, zao, mkp), as code points.
\<close>

definition not_found_tokens :: "ustr list" where
  "not_found_tokens =
     [[0x43E, 0x43E, 0x43E],
      [0x43E, 0x430, 0x43E],
      [0x444, 0x433, 0x443, 0x43F],
      [0x43C, 0x443, 0x43F],
      [0x430, 0x43A, 0x446, 0x438, 0x43E, 0x43D, 0x435, 0x440, 0x43D, 0x43E, 0x435, 0x20,
       0x43E, 0x431, 0x449, 0x435, 0x441, 0x442, 0x432, 0x43E],
      [0x437, 0x430, 0x43E],
      [0x43C, 0x43A, 0x43F]]"

definition not_found_str :: string where
  "not_found_str = ''not in wiki''"

subsection \<open>\<^verbatim>\<open>sum_scores\<close>\<close>

text \<open>
  First loop: \<^verbatim>\<open>entities_with_scores_sum[(entity[0], entity[1])] += entity[2]\<close> on a
  \<^verbatim>\<open>defaultdict(int)\<close>.
\<close>

definition sums_step ::
  "((string \<times> nat) \<times> real) list \<Rightarrow> string \<times> nat \<times> real \<Rightarrow> ((string \<times> nat) \<times> real) list" where
  "sums_step acc c =
     (case c of (e, l, s) \<Rightarrow>
        dict_upd acc (e, l) ((case map_of acc (e, l) of None \<Rightarrow> 0 | Some v \<Rightarrow> v) + s))"

text \<open>
  Second loop: the normalised score, kept when the entity is new or the score is larger.
  The division raises when both lengths are zero.
\<close>

definition norm_step ::
  "nat \<Rightarrow> (string \<times> real) list \<Rightarrow> (string \<times> nat) \<times> real \<Rightarrow> error + (string \<times> real) list" where
  "norm_step substr_len acc kv =
     (case kv of ((entity, cand_entity_len), scores_sum) \<Rightarrow>
        if max substr_len cand_entity_len = 0 then Inl ZeroDivisionError
        else
          (let score = min scores_sum (real cand_entity_len) / real (max substr_len cand_entity_len)
           in case map_of acc entity of
                Some old \<Rightarrow> if score > old then Inr (dict_upd acc entity score) else Inr acc
              | None \<Rightarrow> Inr (dict_upd acc entity score)))"

definition sum_scores ::
  "(string \<times> nat \<times> real) list \<Rightarrow> nat \<Rightarrow> error + (string \<times> real) list" where
  "sum_scores candidate_entities substr_len =
     foldl_r (norm_step substr_len) [] (foldl sums_step [] candidate_entities)"

subsection \<open>\<^verbatim>\<open>find_labels\<close>\<close>

text \<open>
  For a list of ids every id is looked up with itself as default. The other branch reads
  \<^verbatim>\<open>entity_id\<close>, a name bound only inside the comprehension of the first branch, which
  Python 3 does not leak: the interpreter raises \<^verbatim>\<open>NameError\<close>.
\<close>

fun find_labels_one :: "linker \<Rightarrow> ids \<Rightarrow> error + labels" where
  "find_labels_one L (Many entity_ids) =
     Inr (LMany (map (\<lambda>entity_id. case q_to_label L entity_id of
                                      None \<Rightarrow> entity_id | Some l \<Rightarrow> l) entity_ids))"
| "find_labels_one L (Single entity_ids) = Inl NameError"

definition find_labels :: "linker \<Rightarrow> ids list list \<Rightarrow> error + labels list list" where
  "find_labels L entity_ids_batch = map_r (map_r (find_labels_one L)) entity_ids_batch"

subsection \<open>Sorting as \<^verbatim>\<open>sorted(xs, key=f, reverse=True)\<close>\<close>

text \<open>
  Python's sort is stable, and with \<^verbatim>\<open>reverse=True\<close> elements with equal keys still keep
  their original order: the list is reversed, sorted stably in ascending order and
  reversed again. Tuples compare lexicographically (the order of \<open>HOL-Library.Product_Lexorder\<close>).
\<close>

definition sorted_rev :: "('a \<Rightarrow> 'k::linorder) \<Rightarrow> 'a list \<Rightarrow> 'a list" where
  "sorted_rev key xs = rev (sort_key key (rev xs))"

subsection \<open>\<^verbatim>\<open>link_entities\<close>: ranking the fused candidates of one mention\<close>

text \<open>\<^verbatim>\<open>candidate_entity + (self.entities_ranking_dict.get(candidate_entity[0], 0),)\<close>\<close>

definition with_pop :: "linker \<Rightarrow> string \<times> real \<Rightarrow> string \<times> real \<times> int" where
  "with_pop L c =
     (case c of (entity, substr_score) \<Rightarrow>
        (entity, substr_score,
         case entities_ranking_dict L entity of None \<Rightarrow> 0 | Some pop \<Rightarrow> pop))"

definition rank_candidates :: "linker \<Rightarrow> (string \<times> real) list \<Rightarrow> (string \<times> real \<times> int) list" where
  "rank_candidates L candidate_entities =
     sorted_rev (\<lambda>x. (fst (snd x), snd (snd x))) (map (with_pop L) candidate_entities)"

text \<open>A dict comprehension: later entries of a key replace earlier ones.\<close>

definition dict_of :: "('k \<times> 'v) list \<Rightarrow> ('k \<times> 'v) list" where
  "dict_of kvs = foldl (\<lambda>d kv. dict_upd d (fst kv) (snd kv)) [] kvs"

text \<open>
  The body of the loop over \<^verbatim>\<open>candidate_entities_total\<close>: what goes to the reranker
  (\<open>to_rerank\<close>), the dict \<^verbatim>\<open>entities_scores\<close> (\<open>scores_dict\<close>), and the entry appended to
  \<^verbatim>\<open>entity_ids_list\<close> and \<^verbatim>\<open>conf_list\<close>. \<^verbatim>\<open>conf\<close> is computed from
  \<^verbatim>\<open>candidate_entities\<close> after that name was rebound to the list of ids, so each confidence
  is an id without its first character.
\<close>

record ranked =
  to_rerank :: "string list"
  scores_dict :: "(string \<times> real \<times> int) list"
  ranked_ids :: ids
  ranked_conf :: confs

definition rank_mention :: "linker \<Rightarrow> (string \<times> real) list \<Rightarrow> ranked" where
  "rank_mention L fused =
     (let candidate_entities = rank_candidates L fused;
          entities_scores = dict_of candidate_entities;
          candidate_entities =
            take (num_entities_for_bert_ranking L) (map fst candidate_entities);
          conf = take (num_entities_for_bert_ranking L)
                   (map (\<lambda>candidate_entity. ConfStr (drop 1 candidate_entity)) candidate_entities)
      in if num_entities_to_return L = 1 \<and> candidate_entities \<noteq> []
         then \<lparr>to_rerank = candidate_entities, scores_dict = entities_scores,
               ranked_ids = Single (hd candidate_entities), ranked_conf = CSingle (hd conf)\<rparr>
         else \<lparr>to_rerank = candidate_entities, scores_dict = entities_scores,
               ranked_ids = Many (take (num_entities_to_return L) candidate_entities),
               ranked_conf = CMany (take (num_entities_to_return L) conf)\<rparr>)"

subsection \<open>\<^verbatim>\<open>rank_by_description\<close>: after the reranker has answered\<close>

text \<open>
  \<^verbatim>\<open>round(x, 2)\<close>: the nearest multiple of 1/100, a tie going to the even one.
\<close>

definition py_round :: "real \<Rightarrow> int" where
  "py_round x =
     (let f = \<lfloor>x\<rfloor>; d = x - of_int f
      in if d < 1 / 2 then f else if d > 1 / 2 then f + 1 else if even f then f else f + 1)"

definition round2 :: "real \<Rightarrow> real" where
  "round2 x = of_int (py_round (x * 100)) / 100"

text \<open>
  The rows \<^verbatim>\<open>(entity, substring score, popularity, rerank score)\<close> built from the
  reranker's answer with \<^verbatim>\<open>entities_scores.get(entity, (0.0, 0))\<close>.
\<close>

definition score_row ::
  "(string \<times> real \<times> int) list \<Rightarrow> string \<times> real \<Rightarrow> string \<times> real \<times> int \<times> real" where
  "score_row entities_scores es =
     (case es of (entity, score) \<Rightarrow>
        (case (case map_of entities_scores entity of None \<Rightarrow> (0, 0) | Some sp \<Rightarrow> sp) of
           (substr_score, pop) \<Rightarrow> (entity, round2 substr_score, pop, round2 score)))"

text \<open>\<^verbatim>\<open>entity[3] > 0.001\<close> and \<^verbatim>\<open>entity[0].startswith("Q")\<close>\<close>

definition keeps :: "string \<times> real \<times> int \<times> real \<Rightarrow> bool" where
  "keeps x = (case x of (entity, s, p, r) \<Rightarrow> r > 0.001 \<and> take 1 entity = ''Q'')"

definition entities_with_scores ::
  "(string \<times> real \<times> int) list \<Rightarrow> (string \<times> real) list \<Rightarrow> (string \<times> real \<times> int \<times> real) list" where
  "entities_with_scores entities_scores scores =
     sorted_rev (\<lambda>x. (fst (snd x), snd (snd (snd x)), fst (snd (snd x))))
       (filter keeps (map (score_row entities_scores) scores))"

text \<open>The \<^verbatim>\<open>if\<close>/\<^verbatim>\<open>elif\<close> chain of \<^verbatim>\<open>EntityLinkerSep.rank_by_description\<close>.\<close>

definition top_entities_conf ::
  "nat \<Rightarrow> (string \<times> real \<times> int \<times> real) list \<Rightarrow> string list \<times> conf list" where
  "top_entities_conf substr_len ews =
     (case ews of
        [] \<Rightarrow> ([not_found_str], [Conf 0 0 0])
      | (e, s, p, r) # _ \<Rightarrow>
          if substr_len = 1 \<and> s < 1 then ([not_found_str], [Conf 0 0 0])
          else if (r < 0.11 \<and> p < 90) \<or> s < 0.3 \<or> (r < 0.13 \<and> p < 20) \<or>
                  (r < 0.3 \<and> p < 4) \<or> s = 0.5
          then ([not_found_str], [Conf 0 0 0])
          else (map fst ews, map (\<lambda>x. case x of (e, s, p, r) \<Rightarrow> Conf s p r) ews))"

text \<open>
  \<^verbatim>\<open>if self.num_entities_to_return == 1 and top_entities\<close>: one id and one confidence,
  else the lists cut to the return budget.
\<close>

definition emit :: "linker \<Rightarrow> string list \<times> conf list \<Rightarrow> error + ids \<times> confs" where
  "emit L tops =
     (case tops of (top_entities, top_conf) \<Rightarrow>
        if num_entities_to_return L = 1 \<and> top_entities \<noteq> []
        then (case top_conf of
                [] \<Rightarrow> Inl IndexError
              | c # _ \<Rightarrow> Inr (Single (hd top_entities), CSingle c))
        else Inr (Many (take (num_entities_to_return L) top_entities),
                  CMany (take (num_entities_to_return L) top_conf)))"

definition rerank_one ::
  "linker \<Rightarrow> nat \<Rightarrow> (string \<times> real \<times> int) list \<Rightarrow> (string \<times> real) list \<Rightarrow> error + ids \<times> confs" where
  "rerank_one L substr_len entities_scores scores =
     emit L (top_entities_conf substr_len (entities_with_scores entities_scores scores))"

subsection \<open>\<^verbatim>\<open>EntityLinker.rank_by_description\<close>: after the reranker has answered\<close>

text \<open>
  \<^verbatim>\<open>EntityLinker\<close> reads \<^verbatim>\<open>entities_scores[entity]\<close> (a missing key raises) and accepts
  the ranking when \<^verbatim>\<open>7.5 * entities_with_scores[0][3] > 1.0\<close>.
\<close>

definition el_score_row ::
  "(string \<times> real \<times> int) list \<Rightarrow> string \<times> real \<Rightarrow> error + string \<times> real \<times> int \<times> real" where
  "el_score_row entities_scores es =
     (case es of (entity, score) \<Rightarrow>
        (case map_of entities_scores entity of
           None \<Rightarrow> Inl KeyError
         | Some (substr_score, pop) \<Rightarrow> Inr (entity, round2 substr_score, pop, round2 score)))"

definition el_top_entities_conf ::
  "(string \<times> real \<times> int \<times> real) list \<Rightarrow> string list \<times> conf list" where
  "el_top_entities_conf ews =
     (case ews of
        [] \<Rightarrow> ([not_found_str], [Conf 0 0 0])
      | (e, s, p, r) # _ \<Rightarrow>
          if 7.5 * r > 1
          then (map fst ews, map (\<lambda>x. case x of (e, s, p, r) \<Rightarrow> Conf s p r) ews)
          else ([not_found_str], [Conf 0 0 0]))"

definition el_entities_with_scores ::
  "(string \<times> real \<times> int) list \<Rightarrow> (string \<times> real) list \<Rightarrow>
   error + (string \<times> real \<times> int \<times> real) list" where
  "el_entities_with_scores entities_scores scores =
     (case map_r (el_score_row entities_scores) scores of
        Inl e \<Rightarrow> Inl e
      | Inr rows \<Rightarrow>
          Inr (sorted_rev (\<lambda>x. (fst (snd x), snd (snd (snd x)), fst (snd (snd x))))
                 (filter keeps rows)))"

definition el_rerank_one ::
  "linker \<Rightarrow> (string \<times> real \<times> int) list \<Rightarrow> (string \<times> real) list \<Rightarrow> error + ids \<times> confs" where
  "el_rerank_one L entities_scores scores =
     (case el_entities_with_scores entities_scores scores of
        Inl e \<Rightarrow> Inl e
      | Inr ews \<Rightarrow> emit L (el_top_entities_conf ews))"

subsection \<open>String operations of Python\<close>

text \<open>The code points for which \<^verbatim>\<open>str.isspace\<close> holds.\<close>

definition is_space :: "nat \<Rightarrow> bool" where
  "is_space c \<longleftrightarrow>
     (9 \<le> c \<and> c \<le> 13) \<or> (28 \<le> c \<and> c \<le> 32) \<or> c = 0x85 \<or> c = 0xA0 \<or> c = 0x1680 \<or>
     (0x2000 \<le> c \<and> c \<le> 0x200A) \<or> c = 0x2028 \<or> c = 0x2029 \<or> c = 0x202F \<or>
     c = 0x205F \<or> c = 0x3000"

text \<open>\<^verbatim>\<open>s.strip()\<close> and \<^verbatim>\<open>s.strip(",")\<close>\<close>

definition strip_where :: "(nat \<Rightarrow> bool) \<Rightarrow> ustr \<Rightarrow> ustr" where
  "strip_where P s = rev (dropWhile P (rev (dropWhile P s)))"

definition strip :: "ustr \<Rightarrow> ustr" where
  "strip s = strip_where is_space s"

definition strip_commas :: "ustr \<Rightarrow> ustr" where
  "strip_commas s = strip_where (\<lambda>c. c = 0x2C) s"

text \<open>\<^verbatim>\<open>s.split(sep)\<close> for a separator that is not empty.\<close>

function split_sep :: "'a list \<Rightarrow> 'a list \<Rightarrow> 'a list list" where
  "split_sep sep [] = [[]]"
| "split_sep sep (x # xs) =
     (if sep \<noteq> [] \<and> prefix sep (x # xs)
      then [] # split_sep sep (drop (length sep) (x # xs))
      else (case split_sep sep xs of [] \<Rightarrow> [[x]] | w # ws \<Rightarrow> (x # w) # ws))"
  by pat_completeness auto
termination
  by (relation "measure (\<lambda>(sep, s). length s)") (auto simp: neq_Nil_conv)

text \<open>\<^verbatim>\<open>s.split()\<close>: the maximal runs without whitespace.\<close>

fun split_at :: "('a \<Rightarrow> bool) \<Rightarrow> 'a list \<Rightarrow> 'a list list" where
  "split_at P [] = [[]]"
| "split_at P (x # xs) =
     (if P x then [] # split_at P xs
      else (case split_at P xs of [] \<Rightarrow> [[x]] | w # ws \<Rightarrow> (x # w) # ws))"

definition split_ws :: "ustr \<Rightarrow> ustr list" where
  "split_ws s = filter (\<lambda>w. w \<noteq> []) (split_at is_space s)"

text \<open>\<^verbatim>\<open>sep.join(xs)\<close>\<close>

fun join :: "'a list \<Rightarrow> 'a list list \<Rightarrow> 'a list" where
  "join sep [] = []"
| "join sep [x] = x"
| "join sep (x # y # ys) = x @ sep @ join sep (y # ys)"

subsection \<open>\<^verbatim>\<open>NerChunker.sanitize\<close>\<close>

text \<open>
  \<^verbatim>\<open>self.punct_ext\<close>: \<^verbatim>\<open>string.punctuation\<close>, the space, the Latin letters and the digits.
  \<^verbatim>\<open>self.russian_letters\<close>: the 33 small letters. Tests such as
  \<^verbatim>\<open>text[i] in self.punct_ext\<close> are made on one character, so they are membership tests.
\<close>

definition punct_ext :: "nat list" where
  "punct_ext = [0x21..<0x30] @ [0x3A..<0x41] @ [0x5B..<0x61] @ [0x7B..<0x7F] @ [0x20] @
               [0x61..<0x7B] @ [0x41..<0x5B] @ [0x30..<0x3A]"

definition russian_letters :: "nat list" where
  "russian_letters = [0x430..<0x436] @ [0x451] @ [0x436..<0x450]"

text \<open>
  \<^verbatim>\<open>c.lower() in self.russian_letters\<close>: the lower case of a character is one of the 33
  letters for these letters themselves and for their capitals (U+0410 to U+042F, and
  U+0401), and for no other character.
\<close>

definition lower_in_russian :: "nat \<Rightarrow> bool" where
  "lower_in_russian c \<longleftrightarrow>
     c \<in> set russian_letters \<or> (0x410 \<le> c \<and> c \<le> 0x42F) \<or> c = 0x401"

definition sentence_end :: "nat \<Rightarrow> bool" where
  "sentence_end c \<longleftrightarrow> c = 0x2E \<or> c = 0x21 \<or> c = 0x3F"

text \<open>
  \<^verbatim>\<open>text[k]\<close> inside \<^verbatim>\<open>sanitize\<close>: the text is not empty and \<^verbatim>\<open>k\<close> lies between \<^verbatim>\<open>-1\<close>
  and \<^verbatim>\<open>len(text) - 1\<close> at every read (\<^verbatim>\<open>text[i - 1]\<close> with \<^verbatim>\<open>i = 0\<close> is the last
  character, \<^verbatim>\<open>text[i - 2]\<close> is read only when \<^verbatim>\<open>i > 1\<close>), so no read raises.
\<close>

definition char_at :: "ustr \<Rightarrow> int \<Rightarrow> nat" where
  "char_at s k = s ! nat (if k < 0 then int (length s) + k else k)"

text \<open>The test that breaks the loop, at the decremented \<^verbatim>\<open>i\<close>.\<close>

definition sanitize_break :: "ustr \<Rightarrow> nat \<Rightarrow> bool" where
  "sanitize_break s i \<longleftrightarrow>
     (sentence_end (char_at s (int i)) \<and> lower_in_russian (char_at s (int i - 1))) \<or>
     (i > 1 \<and> sentence_end (char_at s (int i)) \<and> char_at s (int i - 1) = 0x22 \<and>
      lower_in_russian (char_at s (int i - 2)))"

text \<open>The \<^verbatim>\<open>while\<close> loop: the value of \<^verbatim>\<open>i\<close> when it ends.\<close>

function sanitize_scan :: "ustr \<Rightarrow> nat \<Rightarrow> nat" where
  "sanitize_scan s i =
     (if char_at s (int i) \<in> set punct_ext \<and> i > 0
      then (if sanitize_break s (i - 1) then i - 1 else sanitize_scan s (i - 1))
      else i)"
  by pat_completeness auto
termination
  by (relation "measure (\<lambda>(s, i). i)") auto

text \<open>\<^verbatim>\<open>re.sub(r'\s+', ' ', text)\<close>: every maximal run of whitespace becomes one space.\<close>

function collapse_ws :: "ustr \<Rightarrow> ustr" where
  "collapse_ws [] = []"
| "collapse_ws (c # cs) =
     (if is_space c then 0x20 # collapse_ws (dropWhile is_space cs) else c # collapse_ws cs)"
  by pat_completeness auto
termination
  by (relation "measure length") (auto simp: less_Suc_eq_le length_dropWhile_le)

definition sanitize :: "ustr \<Rightarrow> ustr" where
  "sanitize s =
     collapse_ws
       (if length s > 0 \<and> \<not> sentence_end (char_at s (int (length s) - 1))
        then take (sanitize_scan s (length s - 1) + 1) s
        else s)"

subsection \<open>\<^verbatim>\<open>NerChunker.__call__\<close>\<close>

text \<open>
  \<open>sent_tokenize\<close> is the sentence splitter of nltk; \<open>tokens_len\<close> stands for
  \<^verbatim>\<open>sum([len(self.tokenizer.tokenize(token)) for token in re.findall(self.re_tokenizer, s)])\<close>.
  The constructor sets \<^verbatim>\<open>max_seq_len\<close>, \<^verbatim>\<open>max_chunk_len\<close> and \<^verbatim>\<open>batch_size\<close>; it sets no
  attribute \<^verbatim>\<open>max_chunk\<close>.
\<close>

record chunker =
  max_seq_len :: nat
  max_chunk_len :: nat
  batch_size :: nat
  sent_tokenize :: "ustr \<Rightarrow> ustr list"
  tokens_len :: "ustr \<Rightarrow> nat"

text \<open>
  The sentences of a document: \<^verbatim>\<open>doc.split("\n")\<close>, every piece sanitized, the pieces of
  more than one character kept, and the sentences of each of them.
\<close>

definition doc_sentences :: "chunker \<Rightarrow> ustr \<Rightarrow> ustr list" where
  "doc_sentences C doc =
     concat (map (sent_tokenize C)
               (filter (\<lambda>doc_piece. length doc_piece > 1)
                  (map sanitize (split_sep [0x0A] doc))))"

text \<open>
  \<^verbatim>\<open>sentences_offsets_batch.append(sentences_offsets_list)\<close> stores a reference: a later
  \<^verbatim>\<open>sentences_offsets_list.append\<close> without rebinding changes the stored entry too. So the
  list objects live in \<open>heap\<close> (offsets and sentences of one chunk together, since the
  two names are rebound, extended and stored at the same places), \<open>cur\<close> is the object
  the names are bound to, and \<open>refs_batch\<close> holds what was appended to
  \<^verbatim>\<open>sentences_offsets_batch\<close> and \<^verbatim>\<open>sentences_batch\<close>.
\<close>

record chunk_state =
  text_batch :: "ustr list"
  nums_batch :: "nat list"
  refs_batch :: "nat list"
  heap :: "((nat \<times> nat) list \<times> ustr list) list"
  cur :: nat
  cur_text :: ustr
  cur_len :: nat
  start :: nat

text \<open>Rebinding both names to new lists; appending to the lists they are bound to.\<close>

definition rebind :: "(nat \<times> nat) list \<Rightarrow> ustr list \<Rightarrow> chunk_state \<Rightarrow> chunk_state" where
  "rebind offs sents st = st\<lparr>heap := heap st @ [(offs, sents)], cur := length (heap st)\<rparr>"

definition append_cur :: "nat \<times> nat \<Rightarrow> ustr \<Rightarrow> chunk_state \<Rightarrow> chunk_state" where
  "append_cur off sent st =
     st\<lparr>heap := (heap st)[cur st := (fst (heap st ! cur st) @ [off], snd (heap st ! cur st) @ [sent])]\<rparr>"

text \<open>\<^verbatim>\<open>if text: text_batch.append(text) ...\<close>\<close>

definition flush :: "nat \<Rightarrow> chunk_state \<Rightarrow> chunk_state" where
  "flush n st =
     (if cur_text st \<noteq> []
      then st\<lparr>text_batch := text_batch st @ [cur_text st],
              refs_batch := refs_batch st @ [cur st],
              nums_batch := nums_batch st @ [n]\<rparr>
      else st)"

text \<open>The loop over the comma-separated pieces of a long sentence; it carries \<^verbatim>\<open>cur_chunk_len\<close>.\<close>

definition chunk_comma ::
  "chunker \<Rightarrow> nat \<Rightarrow> ustr \<Rightarrow> nat \<times> chunk_state \<Rightarrow> ustr \<Rightarrow> nat \<times> chunk_state" where
  "chunk_comma C n sentence acc chunk =
     (case acc of (cur_chunk_len, st) \<Rightarrow>
        (let chunk_len = tokens_len C chunk
         in if cur_chunk_len + chunk_len < max_seq_len C
            then (cur_chunk_len + chunk_len + 1,
                  (append_cur (start st, start st + length chunk + 1) chunk st)
                    \<lparr>cur_text := cur_text st @ chunk @ [0x2C, 0x20],
                     start := start st + length chunk + 1 + 1\<rparr>)
            else (let st1 = flush n (st\<lparr>cur_text := strip_commas (strip (cur_text st))\<rparr>);
                      chunk' = join [0x20] (take (max_chunk_len C) (split_ws chunk))
                  in (chunk_len,
                      (rebind [(0, length chunk')] [sentence] st1)
                        \<lparr>cur_text := chunk' @ [0x2C, 0x20], start := length chunk' + 1\<rparr>))))"

text \<open>
  The body of \<^verbatim>\<open>for sentence in sentences\<close>. In the last branch the expression
  \<^verbatim>\<open>len(chunk_tokens) // self.max_chunk_len + int(len(chunk_tokens) % self.max_chunk > 0)\<close>
  is evaluated from the left: the quotient raises when \<^verbatim>\<open>max_chunk_len\<close> is 0, and else
  the read of \<^verbatim>\<open>self.max_chunk\<close> raises; the loop over the windows that follows it is never
  reached.
\<close>

definition chunk_sentence :: "chunker \<Rightarrow> nat \<Rightarrow> chunk_state \<Rightarrow> ustr \<Rightarrow> error + chunk_state" where
  "chunk_sentence C n st sentence =
     (let sentence_len = tokens_len C sentence
      in if cur_len st + sentence_len < max_seq_len C
         then Inr ((append_cur (start st, start st + length sentence) sentence st)
                     \<lparr>cur_text := cur_text st @ sentence @ [0x20],
                      cur_len := cur_len st + sentence_len,
                      start := start st + length sentence + 1\<rparr>)
         else (let st1 = flush n (st\<lparr>cur_text := strip (cur_text st)\<rparr>)
               in if sentence_len < max_seq_len C
                  then Inr ((rebind [(0, length sentence)] [sentence] st1)
                              \<lparr>cur_text := sentence @ [0x20],
                               cur_len := sentence_len,
                               start := length sentence + 1\<rparr>)
                  else if 0x2C \<in> set sentence
                  then Inr (snd (foldl (chunk_comma C n sentence) (0, st1)
                                   (split_sep [0x2C, 0x20] sentence)))
                  else if max_chunk_len C = 0 then Inl ZeroDivisionError
                  else Inl AttributeError))"

text \<open>One document: the names are reset, the sentences processed, the rest flushed.\<close>

definition chunk_doc :: "chunker \<Rightarrow> chunk_state \<Rightarrow> nat \<times> ustr \<Rightarrow> error + chunk_state" where
  "chunk_doc C st nd =
     (case nd of (n, doc) \<Rightarrow>
        (case foldl_r (chunk_sentence C n)
                ((rebind [] [] st)\<lparr>cur_text := [], cur_len := 0, start := 0\<rparr>)
                (doc_sentences C doc) of
           Inl e \<Rightarrow> Inl e
         | Inr st1 \<Rightarrow> Inr (flush n (st1\<lparr>cur_text := strip_commas (strip (cur_text st1))\<rparr>))))"

text \<open>
  \<^verbatim>\<open>xs[jj*batch_size:(jj+1)*batch_size]\<close> for \<^verbatim>\<open>jj\<close> in \<^verbatim>\<open>range(num_batches)\<close>.
\<close>

definition batches :: "nat \<Rightarrow> nat \<Rightarrow> 'a list \<Rightarrow> 'a list list" where
  "batches num_batches bsize xs =
     map (\<lambda>jj. take ((jj + 1) * bsize - jj * bsize) (drop (jj * bsize) xs)) [0..<num_batches]"

record chunks =
  text_batch_list :: "ustr list list"
  nums_batch_list :: "nat list list"
  sentences_offsets_batch_list :: "(nat \<times> nat) list list list"
  sentences_batch_list :: "ustr list list list"

definition chunker_call :: "chunker \<Rightarrow> ustr list \<Rightarrow> error + chunks" where
  "chunker_call C docs_batch =
     (case foldl_r (chunk_doc C)
             \<lparr>text_batch = [], nums_batch = [], refs_batch = [], heap = [([], [])], cur = 0,
              cur_text = [], cur_len = 0, start = 0\<rparr>
             (zip [0..<length docs_batch] docs_batch) of
        Inl e \<Rightarrow> Inl e
      | Inr st \<Rightarrow>
          if batch_size C = 0 then Inl ZeroDivisionError
          else
            (let num_batches = length (text_batch st) div batch_size C +
                               (if length (text_batch st) mod batch_size C > 0 then 1 else 0)
             in Inr \<lparr>text_batch_list = batches num_batches (batch_size C) (text_batch st),
                     nums_batch_list = batches num_batches (batch_size C) (nums_batch st),
                     sentences_offsets_batch_list =
                       batches num_batches (batch_size C)
                         (map (\<lambda>r. fst (heap st ! r)) (refs_batch st)),
                     sentences_batch_list =
                       batches num_batches (batch_size C)
                         (map (\<lambda>r. snd (heap st ! r)) (refs_batch st))\<rparr>))"

subsection \<open>Indexing and slicing of Python\<close>

text \<open>\<^verbatim>\<open>xs[i]\<close> for a counter that is never negative, and for any integer.\<close>

definition nth_r :: "'a list \<Rightarrow> nat \<Rightarrow> error + 'a" where
  "nth_r xs n = (if n < length xs then Inr (xs ! n) else Inl IndexError)"

definition py_nth :: "'a list \<Rightarrow> int \<Rightarrow> error + 'a" where
  "py_nth xs i =
     (if 0 \<le> i \<and> i < int (length xs) then Inr (xs ! nat i)
      else if i < 0 \<and> - int (length xs) \<le> i then Inr (xs ! nat (int (length xs) + i))
      else Inl IndexError)"

text \<open>\<^verbatim>\<open>xs[a:b]\<close>: a negative bound counts from the end, both are clipped to the list.\<close>

definition clip :: "nat \<Rightarrow> int \<Rightarrow> nat" where
  "clip n i = (if i < 0 then nat (max 0 (int n + i)) else min n (nat i))"

definition py_slice :: "'a list \<Rightarrow> int \<Rightarrow> int \<Rightarrow> 'a list" where
  "py_slice xs a b = take (clip (length xs) b - clip (length xs) a) (drop (clip (length xs) a) xs)"

subsection \<open>\<^verbatim>\<open>EntityLinkerSep.link_entities\<close>: the words of the mentions\<close>

text \<open>
  \<^verbatim>\<open>[word for word in entity_substr.split(' ') if word not in self.stopwords and len(word) > 0]\<close>
\<close>

definition mention_words :: "linker \<Rightarrow> ustr \<Rightarrow> ustr list" where
  "mention_words L entity_substr =
     filter (\<lambda>word. word \<notin> stopwords L \<and> length word > 0) (split_sep [0x20] entity_substr)"

text \<open>The five lists that \<^verbatim>\<open>link_entities\<close> fills for one document.\<close>

record doc_words =
  indices :: "nat list"
  word_fnd_flags :: "bool list"
  word_counts :: "nat list"
  word_tags :: "string list"
  fnd_words :: "ustr list"

text \<open>
  One form of a word (the word itself, then its normal form when that differs): found in
  the inverted index, it goes to \<^verbatim>\<open>fnd_words\<close>; else to \<^verbatim>\<open>nf_words_doc_nums\<close>, the words
  for the fuzzy index.
\<close>

definition add_form ::
  "linker \<Rightarrow> nat \<Rightarrow> nat \<Rightarrow> string \<Rightarrow> nat \<Rightarrow> (ustr \<times> nat) list \<times> doc_words \<Rightarrow> ustr \<Rightarrow>
   (ustr \<times> nat) list \<times> doc_words" where
  "add_form L doc_num i tag word_count acc w =
     (case acc of (nf_words_doc_nums, dw) \<Rightarrow>
        if w \<in> set (word_list L)
        then (nf_words_doc_nums,
              dw\<lparr>fnd_words := fnd_words dw @ [w],
                 word_fnd_flags := word_fnd_flags dw @ [True],
                 indices := indices dw @ [i],
                 word_counts := word_counts dw @ [word_count],
                 word_tags := word_tags dw @ [tag]\<rparr>)
        else (nf_words_doc_nums @ [(w, doc_num)],
              dw\<lparr>word_fnd_flags := word_fnd_flags dw @ [False],
                 indices := indices dw @ [i],
                 word_counts := word_counts dw @ [word_count],
                 word_tags := word_tags dw @ [tag]\<rparr>))"

definition add_word ::
  "linker \<Rightarrow> nat \<Rightarrow> nat \<Rightarrow> string \<Rightarrow> (ustr \<times> nat) list \<times> nat \<times> doc_words \<Rightarrow> ustr \<Rightarrow>
   (ustr \<times> nat) list \<times> nat \<times> doc_words" where
  "add_word L doc_num i tag acc word =
     (case acc of (nf_words_doc_nums, word_count, dw) \<Rightarrow>
        (case (if word \<noteq> morph_parse L word
               then add_form L doc_num i tag word_count
                      (add_form L doc_num i tag word_count (nf_words_doc_nums, dw) word)
                      (morph_parse L word)
               else add_form L doc_num i tag word_count (nf_words_doc_nums, dw) word) of
           (nf_words_doc_nums', dw') \<Rightarrow> (nf_words_doc_nums', word_count + 1, dw')))"

definition add_mention ::
  "linker \<Rightarrow> nat \<Rightarrow> (ustr \<times> nat) list \<times> nat \<times> doc_words \<Rightarrow> nat \<times> ustr list \<times> string \<Rightarrow>
   (ustr \<times> nat) list \<times> nat \<times> doc_words" where
  "add_mention L doc_num acc m =
     (case m of (i, entity_substr, tag) \<Rightarrow> foldl (add_word L doc_num i tag) acc entity_substr)"

definition collect_doc ::
  "linker \<Rightarrow> (ustr \<times> nat) list \<times> nat \<times> doc_words list \<Rightarrow> nat \<times> ustr list list \<times> string list \<Rightarrow>
   (ustr \<times> nat) list \<times> nat \<times> doc_words list" where
  "collect_doc L acc d =
     (case acc of (nf_words_doc_nums, word_count, dws) \<Rightarrow>
      case d of (doc_num, entity_substr_list, tags_list) \<Rightarrow>
        (case foldl (add_mention L doc_num)
                (nf_words_doc_nums, word_count,
                 \<lparr>indices = [], word_fnd_flags = [], word_counts = [], word_tags = [],
                  fnd_words = []\<rparr>)
                (zip [0..<length entity_substr_list] (zip entity_substr_list tags_list)) of
           (nf_words_doc_nums', word_count', dw) \<Rightarrow>
             (nf_words_doc_nums', word_count', dws @ [dw])))"

definition collect_words ::
  "linker \<Rightarrow> ustr list list list \<Rightarrow> string list list \<Rightarrow> (ustr \<times> nat) list \<times> nat \<times> doc_words list" where
  "collect_words L entity_substr_batch tags_batch =
     foldl (collect_doc L) ([], 0, [])
       (zip [0..<length entity_substr_batch] (zip entity_substr_batch tags_batch))"

subsection \<open>\<^verbatim>\<open>link_entities\<close>: the answer of the fuzzy index, by document\<close>

text \<open>
  A row is what the index returned for one word: the distances \<^verbatim>\<open>D\<close> and the neighbour
  numbers \<^verbatim>\<open>I\<close>. \<^verbatim>\<open>D_batch\<close> and \<^verbatim>\<open>I_batch\<close> are built in step, so the model keeps the two
  in one list of rows.
\<close>

type_synonym row = "real list \<times> int list"

definition regroup_step ::
  "row list list \<times> row list \<times> nat \<Rightarrow> row \<times> nat \<Rightarrow> row list list \<times> row list \<times> nat" where
  "regroup_step acc x =
     (case acc of (DI_batch, DI_list, prev_doc_num) \<Rightarrow>
      case x of (DI, doc_num) \<Rightarrow>
        if doc_num \<noteq> prev_doc_num
        then (DI_batch @ [DI_list] @ replicate (doc_num - prev_doc_num - 1) [], [DI], doc_num)
        else (DI_batch, DI_list @ [DI], doc_num))"

definition regroup :: "nat \<Rightarrow> real list list \<Rightarrow> int list list \<Rightarrow> nat list \<Rightarrow> row list list" where
  "regroup n_docs D_all I_all nf_doc_nums =
     (case foldl regroup_step ([], [], 0) (zip (zip D_all I_all) nf_doc_nums) of
        (DI_batch, DI_list, prev_doc_num) \<Rightarrow>
          (let DI_batch' = (if DI_list \<noteq> [] then DI_batch @ [DI_list] else DI_batch)
           in DI_batch' @ replicate (n_docs - length DI_batch') []))"

subsection \<open>\<^verbatim>\<open>link_entities\<close>: the candidates of one document\<close>

text \<open>
  The state of the loop over the word forms. \<open>last_index\<close> is the loop variable
  \<^verbatim>\<open>index\<close>, read after the loop: it keeps its value from an earlier document when the loop
  does not run, and is unbound when no loop has run yet.
\<close>

record cand_state =
  candidate_entities_dict :: "(nat \<times> (string \<times> nat \<times> real) list) list"
  prev_word_count :: nat
  prev_index :: nat
  candidate_entities :: "((string \<times> nat) \<times> real) list"
  words_i :: nat
  ind_i :: nat
  last_index :: "nat option"

text \<open>
  \<^verbatim>\<open>ind_list\<close> and \<^verbatim>\<open>scores_list\<close>, zipped: the word itself with score 1.0 when it is in the
  inverted index, else the neighbours from the fuzzy index with their distances, turned
  into \<^verbatim>\<open>1.0 - score\<close> when \<^verbatim>\<open>num_faiss_cells > 1\<close>.
\<close>

definition neighbours ::
  "linker \<Rightarrow> ustr list \<Rightarrow> row list \<Rightarrow> cand_state \<Rightarrow> bool \<Rightarrow> error + ((ustr + int) \<times> real) list" where
  "neighbours L fnd_words_list DI st flag =
     (if flag
      then (case nth_r fnd_words_list (words_i st) of
              Inl e \<Rightarrow> Inl e
            | Inr w \<Rightarrow> Inr [(Inl w, 1)])
      else (case nth_r DI (ind_i st) of
              Inl e \<Rightarrow> Inl e
            | Inr (scores_list, ind_list) \<Rightarrow>
                Inr (zip (map Inr ind_list)
                       (if num_faiss_cells L > 1 then map (\<lambda>score. 1 - score) scores_list
                        else scores_list))))"

text \<open>
  \<^verbatim>\<open>self.word_to_idlist[ind]\<close> for a found word,
  \<^verbatim>\<open>self.word_to_idlist[self.word_list[ind]]\<close> for a neighbour number.
\<close>

definition entities_of :: "linker \<Rightarrow> ustr + int \<Rightarrow> error + (string \<times> nat) list" where
  "entities_of L ind =
     (case ind of
        Inl w \<Rightarrow> (case map_of (word_to_idlist L) w of None \<Rightarrow> Inl KeyError | Some es \<Rightarrow> Inr es)
      | Inr i \<Rightarrow>
          (case py_nth (word_list L) i of
             Inl e \<Rightarrow> Inl e
           | Inr w \<Rightarrow>
               (case map_of (word_to_idlist L) w of None \<Rightarrow> Inl KeyError | Some es \<Rightarrow> Inr es)))"

text \<open>
  \<^verbatim>\<open>entity[0] in self.entities_types_sets[tag] or entity[0] in self.entities_types_sets["AMB"]\<close>
\<close>

definition type_ok :: "linker \<Rightarrow> string \<Rightarrow> string \<times> nat \<Rightarrow> error + bool" where
  "type_ok L tag entity =
     (case entities_types_sets L tag of
        None \<Rightarrow> Inl KeyError
      | Some tagged \<Rightarrow>
          if fst entity \<in> tagged then Inr True
          else (case entities_types_sets L ''AMB'' of
                  None \<Rightarrow> Inl KeyError
                | Some amb \<Rightarrow> Inr (fst entity \<in> amb)))"

fun filter_r :: "('a \<Rightarrow> error + bool) \<Rightarrow> 'a list \<Rightarrow> error + 'a list" where
  "filter_r P [] = Inr []"
| "filter_r P (x # xs) =
     (case P x of
        Inl e \<Rightarrow> Inl e
      | Inr b \<Rightarrow>
          (case filter_r P xs of
             Inl e \<Rightarrow> Inl e
           | Inr ys \<Rightarrow> Inr (if b then x # ys else ys)))"

text \<open>The score of an entity is raised, never lowered.\<close>

definition upd_max :: "real \<Rightarrow> ((string \<times> nat) \<times> real) list \<Rightarrow> string \<times> nat \<Rightarrow> ((string \<times> nat) \<times> real) list" where
  "upd_max score cands entity =
     (case map_of cands entity of
        Some old \<Rightarrow> if score > old then dict_upd cands entity score else cands
      | None \<Rightarrow> dict_upd cands entity score)"

text \<open>
  \<^verbatim>\<open>for entity in entities_set\<close> over the set built by the comprehension: every element
  once, in the order \<open>set_order\<close>. An iteration visits each element of the set exactly
  once whatever the order is, so an answer of \<open>set_order\<close> that is not such a listing is
  not used.
\<close>

definition iter_set :: "linker \<Rightarrow> (string \<times> nat) list \<Rightarrow> (string \<times> nat) list" where
  "iter_set L xs =
     (let ys = set_order L (remdups xs)
      in if distinct ys \<and> set ys = set xs then ys else remdups xs)"

definition add_neighbour ::
  "linker \<Rightarrow> string \<Rightarrow> ((string \<times> nat) \<times> real) list \<Rightarrow> (ustr + int) \<times> real \<Rightarrow>
   error + ((string \<times> nat) \<times> real) list" where
  "add_neighbour L tag cands x =
     (case x of (ind, score) \<Rightarrow>
        (case entities_of L ind of
           Inl e \<Rightarrow> Inl e
         | Inr entities_set \<Rightarrow>
             (case filter_r (type_ok L tag) entities_set of
                Inl e \<Rightarrow> Inl e
              | Inr entities_set' \<Rightarrow> Inr (foldl (upd_max score) cands (iter_set L entities_set')))))"

text \<open>
  \<^verbatim>\<open>if k not in candidate_entities_dict: candidate_entities_dict[k] = []\<close>, then
  \<^verbatim>\<open>candidate_entities_dict[k] += [(entity, cand_entity_len, score) for ...]\<close>
\<close>

definition dict_extend ::
  "(nat \<times> (string \<times> nat \<times> real) list) list \<Rightarrow> nat \<Rightarrow> ((string \<times> nat) \<times> real) list \<Rightarrow>
   (nat \<times> (string \<times> nat \<times> real) list) list" where
  "dict_extend d k cands =
     dict_upd d k ((case map_of d k of None \<Rightarrow> [] | Some v \<Rightarrow> v) @
                   map (\<lambda>c. (fst (fst c), snd (fst c), snd c)) cands)"

definition cand_step ::
  "linker \<Rightarrow> ustr list \<Rightarrow> row list \<Rightarrow> cand_state \<Rightarrow> nat \<times> nat \<times> string \<times> bool \<Rightarrow> error + cand_state" where
  "cand_step L fnd_words_list DI st x =
     (case x of (index, word_count, tag, flag) \<Rightarrow>
        (case neighbours L fnd_words_list DI st flag of
           Inl e \<Rightarrow> Inl e
         | Inr pairs \<Rightarrow>
             (let st1 = (if flag then st\<lparr>words_i := words_i st + 1\<rparr>
                         else st\<lparr>ind_i := ind_i st + 1\<rparr>);
                  st2 = (if word_count \<noteq> prev_word_count st1
                         then st1\<lparr>candidate_entities_dict :=
                                    dict_extend (candidate_entities_dict st1) (prev_index st1)
                                      (candidate_entities st1),
                                  candidate_entities := []\<rparr>
                         else st1)
              in case foldl_r (add_neighbour L tag) (candidate_entities st2) pairs of
                   Inl e \<Rightarrow> Inl e
                 | Inr cands \<Rightarrow>
                     Inr (st2\<lparr>candidate_entities := cands, prev_index := index,
                              prev_word_count := word_count, last_index := Some index\<rparr>))))"

text \<open>The loop, and the lines after it that file the last word's candidates under \<^verbatim>\<open>index\<close>.\<close>

definition gen_candidates ::
  "linker \<Rightarrow> doc_words \<Rightarrow> row list \<Rightarrow> nat option \<Rightarrow>
   error + (nat \<times> (string \<times> nat \<times> real) list) list \<times> nat option" where
  "gen_candidates L dw DI index0 =
     (case foldl_r (cand_step L (fnd_words dw) DI)
             \<lparr>candidate_entities_dict = [], prev_word_count = 0, prev_index = 0,
              candidate_entities = [], words_i = 0, ind_i = 0, last_index = index0\<rparr>
             (zip (indices dw) (zip (word_counts dw) (zip (word_tags dw) (word_fnd_flags dw)))) of
        Inl e \<Rightarrow> Inl e
      | Inr st \<Rightarrow>
          (case last_index st of
             None \<Rightarrow> Inl UnboundLocalError
           | Some index \<Rightarrow>
               Inr (dict_extend (candidate_entities_dict st) index (candidate_entities st),
                    Some index)))"

subsection \<open>\<^verbatim>\<open>EntityLinkerSep.rank_by_description\<close>: the contexts\<close>

text \<open>The first sentence whose span holds the mention; no sentence is the empty string.\<close>

fun find_sentence ::
  "int \<Rightarrow> int \<Rightarrow> nat \<Rightarrow> (ustr \<times> int \<times> int) list \<Rightarrow> ustr \<times> nat \<times> int \<times> int" where
  "find_sentence entity_start_offset entity_end_offset num [] = ([], 0, 0, 0)"
| "find_sentence entity_start_offset entity_end_offset num ((sent, sent_start_offset, sent_end_offset) # rest) =
     (if entity_start_offset \<ge> sent_start_offset \<and> entity_end_offset \<le> sent_end_offset
      then (sent, num, entity_start_offset - sent_start_offset, entity_end_offset - sent_start_offset)
      else find_sentence entity_start_offset entity_end_offset (Suc num) rest)"

text \<open>
  The \<^verbatim>\<open>while True\<close> loop of \<^verbatim>\<open>full_paragraph\<close>. \<open>next_sents\<close> are the sentences behind
  \<^verbatim>\<open>last_sentence_num\<close>, \<open>prev_sents\<close> those in front of \<^verbatim>\<open>first_sentence_num\<close>, nearest
  first: the loop takes the next sentence on either side while the token budget allows
  and stops in the round that adds nothing.
\<close>

function extend_context :: "linker \<Rightarrow> nat \<Rightarrow> ustr list \<Rightarrow> ustr list \<Rightarrow> ustr list \<Rightarrow> ustr list" where
  "extend_context L cur_sent_len prev_sents next_sents context =
     (let take_after = (next_sents \<noteq> [] \<and> cur_sent_len + count_tokens L (hd next_sents) < max_paragraph_len L);
          context1 = (if take_after then context @ [hd next_sents] else context);
          cur1 = (if take_after then cur_sent_len + count_tokens L (hd next_sents) else cur_sent_len);
          next_sents1 = (if take_after then tl next_sents else next_sents);
          take_before = (prev_sents \<noteq> [] \<and> cur1 + count_tokens L (hd prev_sents) < max_paragraph_len L);
          context2 = (if take_before then hd prev_sents # context1 else context1);
          cur2 = (if take_before then cur1 + count_tokens L (hd prev_sents) else cur1);
          prev_sents1 = (if take_before then tl prev_sents else prev_sents)
      in if take_after \<or> take_before then extend_context L cur2 prev_sents1 next_sents1 context2
         else context2)"
  by pat_completeness auto
termination
  by (relation "measure (\<lambda>(L, cur_sent_len, prev_sents, next_sents, context). length prev_sents + length next_sents)")
     (auto simp: Let_def neq_Nil_conv split: if_splits)

definition ent_marker :: ustr where
  "ent_marker = [0x5B, 0x45, 0x4E, 0x54, 0x5D]"

definition context_of ::
  "linker \<Rightarrow> ustr list \<Rightarrow> (int \<times> int) list \<Rightarrow> int \<times> int \<Rightarrow> ustr" where
  "context_of L sentences_list sentences_offsets_list entity_offsets =
     (case find_sentence (fst entity_offsets) (snd entity_offsets) 0
             (zip sentences_list sentences_offsets_list) of
        (sentence, found_sentence_num, rel_start_offset, rel_end_offset) \<Rightarrow>
          if sentence = [] then []
          else
            (let long = (int (length sentence) > max_text_len L);
                 start_of_sentence = (if long then max (rel_start_offset - max_text_len L div 2) 0 else 0);
                 end_of_sentence = (if long then min (rel_end_offset + max_text_len L div 2)
                                                   (int (length sentence))
                                    else int (length sentence));
                 context =
                   (if include_mention L
                    then py_slice sentence start_of_sentence rel_start_offset @ ent_marker @
                         py_slice sentence rel_start_offset rel_end_offset @ ent_marker @
                         py_slice sentence rel_end_offset end_of_sentence
                    else py_slice sentence start_of_sentence rel_start_offset @ ent_marker @
                         py_slice sentence rel_end_offset end_of_sentence)
             in if full_paragraph L
                then join [0x20]
                       (extend_context L (count_tokens L context)
                          (rev (take found_sentence_num sentences_list))
                          (drop (Suc found_sentence_num) sentences_list) [context])
                else context))"

subsection \<open>\<^verbatim>\<open>EntityLinkerSep.rank_by_description\<close>\<close>

definition rank_by_description ::
  "linker \<Rightarrow> ustr list list \<Rightarrow> (int \<times> int) list \<Rightarrow> string list list \<Rightarrow> string list \<Rightarrow>
   (string \<times> real \<times> int) list list \<Rightarrow> ustr list \<Rightarrow> (int \<times> int) list \<Rightarrow> nat list \<Rightarrow>
   error + ids list \<times> confs list" where
  "rank_by_description L entity_substr_list entity_offsets_list candidate_entities_list tags
     entities_scores_list sentences_list sentences_offsets_list substr_lens =
     (let contexts =
            map (\<lambda>x. context_of L sentences_list sentences_offsets_list (fst (snd x)))
              (zip entity_substr_list (zip entity_offsets_list candidate_entities_list));
          scores_list = batch_rank_rels L contexts candidate_entities_list
      in case map_r (\<lambda>x. case x of
                            (entity_substr, cand_ids, tag, substr_len, entities_scores, scores) \<Rightarrow>
                              rerank_one L substr_len entities_scores scores)
                (zip entity_substr_list (zip candidate_entities_list (zip tags (zip substr_lens
                   (zip entities_scores_list scores_list))))) of
           Inl e \<Rightarrow> Inl e
         | Inr rs \<Rightarrow> Inr (map fst rs, map snd rs))"

subsection \<open>\<^verbatim>\<open>EntityLinkerSep.link_entities\<close>\<close>

text \<open>
  What the big \<^verbatim>\<open>zip\<close> over the documents binds: the words of the mentions, their
  offsets, the sentences and their offsets, the five word lists, the tags and the rows
  of the fuzzy index.
\<close>

record doc_in =
  d_entity_substr_list :: "ustr list list"
  d_entity_offsets_list :: "(int \<times> int) list"
  d_sentences_list :: "ustr list"
  d_sentences_offsets_list :: "(int \<times> int) list"
  d_words :: doc_words
  d_tags :: "string list"
  d_rows :: "row list"

definition zip_docs ::
  "ustr list list list \<Rightarrow> (int \<times> int) list list \<Rightarrow> ustr list list \<Rightarrow> (int \<times> int) list list \<Rightarrow>
   doc_words list \<Rightarrow> string list list \<Rightarrow> row list list \<Rightarrow> doc_in list" where
  "zip_docs entity_substr_batch entity_offsets_batch sentences_batch sentences_offsets_batch
     dws tags_batch DI_batch =
     map (\<lambda>x. case x of (a, b, c, d, e, f, g) \<Rightarrow>
            \<lparr>d_entity_substr_list = a, d_entity_offsets_list = b, d_sentences_list = c,
             d_sentences_offsets_list = d, d_words = e, d_tags = f, d_rows = g\<rparr>)
       (zip entity_substr_batch (zip entity_offsets_batch (zip sentences_batch
          (zip sentences_offsets_batch (zip dws (zip tags_batch DI_batch))))))"

text \<open>
  The candidates of the mentions of one document, fused: the values of
  \<^verbatim>\<open>candidate_entities_dict\<close> in the order of their keys' insertion, paired by position
  with \<^verbatim>\<open>substr_lens\<close>.
\<close>

definition fuse_all ::
  "(nat \<times> (string \<times> nat \<times> real) list) list \<Rightarrow> nat list \<Rightarrow> error + (string \<times> real) list list" where
  "fuse_all cand_dict substr_lens =
     map_r (\<lambda>x. sum_scores (fst x) (snd x)) (zip (map snd cand_dict) substr_lens)"

text \<open>The body of the loop over the documents; it passes \<^verbatim>\<open>index\<close> on.\<close>

definition link_doc ::
  "linker \<Rightarrow> (ids list \<times> confs list) list \<times> nat option \<Rightarrow> doc_in \<Rightarrow>
   error + (ids list \<times> confs list) list \<times> nat option" where
  "link_doc L acc d =
     (case acc of (results, index0) \<Rightarrow>
        if d_entity_substr_list d = [] then Inr (results @ [([], [])], index0)
        else
          (let substr_lens = map length (d_entity_substr_list d)
           in case gen_candidates L (d_words d) (d_rows d) index0 of
                Inl e \<Rightarrow> Inl e
              | Inr (cand_dict, index) \<Rightarrow>
                  (case fuse_all cand_dict substr_lens of
                     Inl e \<Rightarrow> Inl e
                   | Inr candidate_entities_total \<Rightarrow>
                       (let ranked = map (\<lambda>x. rank_mention L (snd x))
                                       (zip (d_entity_substr_list d) candidate_entities_total)
                        in if use_descriptions L
                           then (case rank_by_description L (d_entity_substr_list d)
                                        (d_entity_offsets_list d) (map to_rerank ranked) (d_tags d)
                                        (map scores_dict ranked) (d_sentences_list d)
                                        (d_sentences_offsets_list d) substr_lens of
                                   Inl e \<Rightarrow> Inl e
                                 | Inr r \<Rightarrow> Inr (results @ [r], index))
                           else Inr (results @ [(map ranked_ids ranked, map ranked_conf ranked)],
                                     index)))))"

text \<open>
  The first half of \<^verbatim>\<open>link_entities\<close>: the word lists of the documents, the one query
  to the fuzzy index with the words that the inverted index does not have (none when there
  is no such word), and its answer regrouped by document.
\<close>

definition fuzzy_rows ::
  "linker \<Rightarrow> ustr list list list \<Rightarrow> string list list \<Rightarrow> doc_words list \<times> row list list" where
  "fuzzy_rows L entity_substr_batch' tags_batch =
     (case collect_words L entity_substr_batch' tags_batch of
        (nf_words_doc_nums, word_count, dws) \<Rightarrow>
          (let nf_words = map fst nf_words_doc_nums;
               nf_doc_nums = map snd nf_words_doc_nums;
               DI_all = (if nf_words \<noteq> []
                         then faiss_search L nf_words (num_faiss_candidate_entities L)
                         else ([], []))
           in (dws, regroup (length entity_substr_batch') (fst DI_all) (snd DI_all)
                      nf_doc_nums)))"

definition link_entities ::
  "linker \<Rightarrow> ustr list list \<Rightarrow> string list list \<Rightarrow> (int \<times> int) list list \<Rightarrow> ustr list list \<Rightarrow>
   (int \<times> int) list list \<Rightarrow> error + ids list list \<times> confs list list" where
  "link_entities L entity_substr_batch tags_batch entity_offsets_batch sentences_batch
     sentences_offsets_batch =
     (let entity_substr_batch' = map (map (mention_words L)) entity_substr_batch
      in case fuzzy_rows L entity_substr_batch' tags_batch of
           (dws, DI_batch) \<Rightarrow>
             (case foldl_r (link_doc L) ([], None)
                     (zip_docs entity_substr_batch' entity_offsets_batch sentences_batch
                        sentences_offsets_batch dws tags_batch DI_batch) of
                Inl e \<Rightarrow> Inl e
              | Inr (results, index) \<Rightarrow> Inr (map fst results, map snd results)))"

subsection \<open>\<^verbatim>\<open>EntityLinkerSep.__call__\<close>\<close>

text \<open>\<^verbatim>\<open>tok in entity_substr\<close> for some deny-listed token.\<close>

definition nf :: "ustr \<Rightarrow> bool" where
  "nf entity_substr = list_ex (\<lambda>tok. sublist tok entity_substr) not_found_tokens"

text \<open>
  The mentions of one document, split: those with a deny-listed token, each with the
  sentinel as its result, and the others, which go on to \<^verbatim>\<open>link_entities\<close>.
\<close>

record split_doc =
  nf_entity_substr_list :: "ustr list"
  nf_tags_list :: "string list"
  nf_entity_offsets_list :: "(int \<times> int) list"
  nf_entity_ids_list :: "ids list"
  nf_conf_list :: "confs list"
  fnd_entity_substr_list :: "ustr list"
  fnd_tags_list :: "string list"
  fnd_entity_offsets_list :: "(int \<times> int) list"

definition split_mention :: "linker \<Rightarrow> split_doc \<Rightarrow> ustr \<times> string \<times> int \<times> int \<Rightarrow> split_doc" where
  "split_mention L s m =
     (case m of (entity_substr, tag, entity_offsets) \<Rightarrow>
        if nf entity_substr
        then s\<lparr>nf_entity_substr_list := nf_entity_substr_list s @ [entity_substr],
               nf_tags_list := nf_tags_list s @ [tag],
               nf_entity_offsets_list := nf_entity_offsets_list s @ [entity_offsets],
               nf_entity_ids_list := nf_entity_ids_list s @
                 [if num_entities_to_return L = 1 then Single not_found_str
                  else Many [not_found_str]],
               nf_conf_list := nf_conf_list s @
                 [if num_entities_to_return L = 1 then CSingle (Conf 0 0 0)
                  else CMany [Conf 0 0 0]]\<rparr>
        else s\<lparr>fnd_entity_substr_list := fnd_entity_substr_list s @ [entity_substr],
               fnd_tags_list := fnd_tags_list s @ [tag],
               fnd_entity_offsets_list := fnd_entity_offsets_list s @ [entity_offsets]\<rparr>)"

definition split_mentions ::
  "linker \<Rightarrow> ustr list \<times> string list \<times> (int \<times> int) list \<Rightarrow> split_doc" where
  "split_mentions L d =
     (case d of (entity_substr_list, tags_list, entity_offsets_list) \<Rightarrow>
        foldl (split_mention L)
          \<lparr>nf_entity_substr_list = [], nf_tags_list = [], nf_entity_offsets_list = [],
           nf_entity_ids_list = [], nf_conf_list = [], fnd_entity_substr_list = [],
           fnd_tags_list = [], fnd_entity_offsets_list = []\<rparr>
          (zip entity_substr_list (zip tags_list entity_offsets_list)))"

text \<open>What \<^verbatim>\<open>__call__\<close> returns; the confidences only with \<^verbatim>\<open>return_confidences\<close>.\<close>

record linked =
  out_entity_substr_batch :: "ustr list list"
  out_conf_batch :: "confs list list option"
  out_entity_offsets_batch :: "(int \<times> int) list list"
  out_entity_ids_batch :: "ids list list"
  out_tags_batch :: "string list list"
  out_entity_labels_batch :: "labels list list"

text \<open>
  The loop \<^verbatim>\<open>for i in range(len(nf_entity_substr_batch))\<close>: the deny-listed mentions of
  document \<^verbatim>\<open>i\<close> first, then the others; \<^verbatim>\<open>fnd_entity_ids_batch[i]\<close> and
  \<^verbatim>\<open>fnd_conf_batch[i]\<close> raise when \<^verbatim>\<open>link_entities\<close> returned fewer documents.
\<close>

definition merge_doc ::
  "ids list list \<Rightarrow> confs list list \<Rightarrow> nat \<times> split_doc \<Rightarrow>
   error + ustr list \<times> string list \<times> (int \<times> int) list \<times> ids list \<times> confs list" where
  "merge_doc fnd_entity_ids_batch fnd_conf_batch x =
     (case x of (i, s) \<Rightarrow>
        (case nth_r fnd_entity_ids_batch i of
           Inl e \<Rightarrow> Inl e
         | Inr fnd_ids \<Rightarrow>
             (case nth_r fnd_conf_batch i of
                Inl e \<Rightarrow> Inl e
              | Inr fnd_conf \<Rightarrow>
                  Inr (nf_entity_substr_list s @ fnd_entity_substr_list s,
                       nf_tags_list s @ fnd_tags_list s,
                       nf_entity_offsets_list s @ fnd_entity_offsets_list s,
                       nf_entity_ids_list s @ fnd_ids,
                       nf_conf_list s @ fnd_conf))))"

definition call ::
  "linker \<Rightarrow> ustr list list \<Rightarrow> (int \<times> int) list list \<Rightarrow> string list list \<Rightarrow>
   (int \<times> int) list list \<Rightarrow> ustr list list \<Rightarrow> error + linked" where
  "call L entity_substr_batch0 entity_offsets_batch0 tags_batch0 sentences_offsets_batch
     sentences_batch =
     (let splits = map (split_mentions L)
                     (zip entity_substr_batch0 (zip tags_batch0 entity_offsets_batch0))
      in case link_entities L (map fnd_entity_substr_list splits) (map fnd_tags_list splits)
                (map fnd_entity_offsets_list splits) sentences_batch sentences_offsets_batch of
           Inl e \<Rightarrow> Inl e
         | Inr (fnd_entity_ids_batch, fnd_conf_batch) \<Rightarrow>
             (case map_r (merge_doc fnd_entity_ids_batch fnd_conf_batch)
                     (zip [0..<length splits] splits) of
                Inl e \<Rightarrow> Inl e
              | Inr merged \<Rightarrow>
                  (case find_labels L (map (\<lambda>m. fst (snd (snd (snd m)))) merged) of
                     Inl e \<Rightarrow> Inl e
                   | Inr labels_batch \<Rightarrow>
                       Inr \<lparr>out_entity_substr_batch = map fst merged,
                            out_conf_batch = (if return_confidences L
                                          then Some (map (\<lambda>m. snd (snd (snd (snd m)))) merged)
                                          else None),
                            out_entity_offsets_batch = map (\<lambda>m. fst (snd (snd m))) merged,
                            out_entity_ids_batch = map (\<lambda>m. fst (snd (snd (snd m)))) merged,
                            out_tags_batch = map (\<lambda>m. fst (snd m)) merged,
                            out_entity_labels_batch = labels_batch\<rparr>)))"

subsection \<open>\<^verbatim>\<open>EntityLinker.link_entities\<close>: the words for the fuzzy index\<close>

text \<open>
  \<^verbatim>\<open>EntityLinker\<close> has no lookup in the inverted index before the fuzzy index: every word
  and, when it differs, its normal form is appended to \<^verbatim>\<open>words_doc_nums\<close> (the lists
  \<^verbatim>\<open>indices\<close>, \<^verbatim>\<open>word_counts\<close> and \<^verbatim>\<open>word_tags\<close> are filled as in \<^verbatim>\<open>EntityLinkerSep\<close>), and
  all of them go to the index in one query; \<^verbatim>\<open>zip(*words_doc_nums)\<close> cannot be unpacked when
  there is no word. The distances become \<^verbatim>\<open>1.0 - score\<close> under the same test.
\<close>

definition el_add_word :: "linker \<Rightarrow> nat \<Rightarrow> (ustr \<times> nat) list \<Rightarrow> ustr \<Rightarrow> (ustr \<times> nat) list" where
  "el_add_word L doc_num words_doc_nums word =
     (if word \<noteq> morph_parse L word
      then words_doc_nums @ [(word, doc_num)] @ [(morph_parse L word, doc_num)]
      else words_doc_nums @ [(word, doc_num)])"

definition el_add_doc ::
  "linker \<Rightarrow> (ustr \<times> nat) list \<Rightarrow> nat \<times> ustr list list \<times> string list \<Rightarrow> (ustr \<times> nat) list" where
  "el_add_doc L words_doc_nums d =
     (case d of (doc_num, entity_substr_list, tags_list) \<Rightarrow>
        foldl (\<lambda>acc m. foldl (el_add_word L doc_num) acc (fst (snd m))) words_doc_nums
          (zip [0..<length entity_substr_list] (zip entity_substr_list tags_list)))"

definition el_words_doc_nums ::
  "linker \<Rightarrow> ustr list list list \<Rightarrow> string list list \<Rightarrow> (ustr \<times> nat) list" where
  "el_words_doc_nums L entity_substr_batch tags_batch =
     foldl (el_add_doc L) []
       (zip [0..<length entity_substr_batch] (zip entity_substr_batch tags_batch))"

definition el_search ::
  "linker \<Rightarrow> ustr list list list \<Rightarrow> string list list \<Rightarrow> error + real list list \<times> int list list" where
  "el_search L entity_substr_batch tags_batch =
     (if el_words_doc_nums L entity_substr_batch tags_batch = [] then Inl ValueError
      else Inr (faiss_search L (map fst (el_words_doc_nums L entity_substr_batch tags_batch))
                  (num_faiss_candidate_entities L)))"

definition el_scores :: "linker \<Rightarrow> real list \<Rightarrow> real list" where
  "el_scores L scores_list =
     (if num_faiss_cells L > 1 then map (\<lambda>score. 1 - score) scores_list else scores_list)"

section \<open>Vocabulary of the statements\<close>

subsection \<open>Vocabulary of the statements about \<^verbatim>\<open>sum_scores\<close>\<close>

definition spec_score_sum :: "(string \<times> nat \<times> real) list \<Rightarrow> string \<Rightarrow> nat \<Rightarrow> real" where
  "spec_score_sum cands e l =
     sum_list (map (\<lambda>c. snd (snd c)) (filter (\<lambda>c. fst c = e \<and> fst (snd c) = l) cands))"

definition spec_label_lens :: "(string \<times> nat \<times> real) list \<Rightarrow> string \<Rightarrow> nat set" where
  "spec_label_lens cands e = (\<lambda>c. fst (snd c)) ` set (filter (\<lambda>c. fst c = e) cands)"

definition spec_normalized :: "nat \<Rightarrow> real \<Rightarrow> nat \<Rightarrow> real" where
  "spec_normalized substr_len score_sum label_len =
     min score_sum (real label_len) / real (max substr_len label_len)"

definition dict_val :: "('k \<times> real) list \<Rightarrow> 'k \<Rightarrow> real" where
  "dict_val d k = (case map_of d k of None \<Rightarrow> 0 | Some v \<Rightarrow> v)"

definition norm_vals :: "nat \<Rightarrow> string \<Rightarrow> ((string \<times> nat) \<times> real) list \<Rightarrow> real list" where
  "norm_vals n e kvs =
     map (\<lambda>kv. spec_normalized n (snd kv) (snd (fst kv))) (filter (\<lambda>kv. fst (fst kv) = e) kvs)"

definition best :: "real option \<Rightarrow> real list \<Rightarrow> real option" where
  "best old vs = (case old of None \<Rightarrow> (case vs of [] \<Rightarrow> None | x # xs \<Rightarrow> Some (fold max xs x))
                   | Some v \<Rightarrow> Some (fold max vs v))"

subsection \<open>Ranking before reranking\<close>

definition spec_popularity :: "linker \<Rightarrow> string \<Rightarrow> int" where
  "spec_popularity L e = (if e \<in> dom (entities_ranking_dict L) then the (entities_ranking_dict L e) else 0)"

definition spec_ranks_before :: "string \<times> real \<times> int \<Rightarrow> string \<times> real \<times> int \<Rightarrow> bool" where
  "spec_ranks_before x y =
     (fst (snd x) > fst (snd y) \<or> (fst (snd x) = fst (snd y) \<and> snd (snd x) \<ge> snd (snd y)))"

subsection \<open>The acceptance rule\<close>

definition spec_below_tier :: "real \<Rightarrow> int \<Rightarrow> real \<Rightarrow> int \<Rightarrow> bool" where
  "spec_below_tier r p rerank_floor pop_floor = (r < rerank_floor \<and> p < pop_floor)"

definition spec_rejected :: "nat \<Rightarrow> (string \<times> real \<times> int \<times> real) list \<Rightarrow> bool" where
  "spec_rejected substr_len ews =
     (case ews of
        [] \<Rightarrow> True
      | (e, s, p, r) # _ \<Rightarrow>
          (substr_len = 1 \<and> s < 1) \<or>
          spec_below_tier r p 0.11 90 \<or> spec_below_tier r p 0.13 20 \<or> spec_below_tier r p 0.3 4 \<or>
          s < 0.3 \<or> s = 0.5)"

definition claimed_rejected :: "nat \<Rightarrow> (string \<times> real \<times> int \<times> real) list \<Rightarrow> bool" where
  "claimed_rejected substr_len ews =
     (case ews of
        [] \<Rightarrow> True
      | (e, s, p, r) # _ \<Rightarrow>
          (substr_len = 1 \<and> s < 1) \<or>
          (spec_below_tier r p 0.11 90 \<and> spec_below_tier r p 0.13 20 \<and> spec_below_tier r p 0.3 4))"

definition spec_el_rejected :: "(string \<times> real \<times> int \<times> real) list \<Rightarrow> bool" where
  "spec_el_rejected ews = (case ews of [] \<Rightarrow> True | (e, s, p, r) # _ \<Rightarrow> 7.5 * r \<le> 1)"

definition conf_of :: "string \<times> real \<times> int \<times> real \<Rightarrow> conf" where
  "conf_of x = (case x of (e, s, p, r) \<Rightarrow> Conf s p r)"

definition spec_emitted ::
  "linker \<Rightarrow> bool \<Rightarrow> (string \<times> real \<times> int \<times> real) list \<Rightarrow> ids \<times> confs" where
  "spec_emitted L rejected ews =
     (if rejected
      then (if num_entities_to_return L = 1 then (Single not_found_str, CSingle (Conf 0 0 0))
            else (Many (take (num_entities_to_return L) [not_found_str]),
                  CMany (take (num_entities_to_return L) [Conf 0 0 0])))
      else (if num_entities_to_return L = 1 then (Single (fst (hd ews)), CSingle (conf_of (hd ews)))
            else (Many (take (num_entities_to_return L) (map fst ews)),
                  CMany (take (num_entities_to_return L) (map conf_of ews)))))"

definition ex_linker :: linker where
  "ex_linker =
     \<lparr>stopwords = {[0x432]},
      word_to_idlist = [([0x43C, 0x43E, 0x441, 0x43A, 0x432, 0x430], [(''Q649'', 1)])],
      entities_ranking_dict = [''Q649'' \<mapsto> 100],
      entities_types_sets = [''LOC'' \<mapsto> {''Q649''}, ''AMB'' \<mapsto> {}],
      q_to_label = Map.empty,
      morph_parse = (\<lambda>w. w),
      faiss_search = (\<lambda>ws k. (map (\<lambda>w. [0.25]) ws, map (\<lambda>w. [0]) ws)),
      batch_rank_rels = (\<lambda>contexts cands. map (map (\<lambda>e. (e, 1))) cands),
      count_tokens = length,
      set_order = (\<lambda>es. es),
      num_faiss_candidate_entities = 20,
      num_entities_for_bert_ranking = 50,
      num_faiss_cells = 50,
      num_entities_to_return = 10,
      use_descriptions = True,
      return_confidences = True,
      include_mention = False,
      max_text_len = 300,
      full_paragraph = False,
      max_paragraph_len = 280\<rparr>"

subsection \<open>Filtering and sorting after reranking\<close>

definition spec_rerank_before ::
  "string \<times> real \<times> int \<times> real \<Rightarrow> string \<times> real \<times> int \<times> real \<Rightarrow> bool" where
  "spec_rerank_before x y =
     (case x of (e, s, p, r) \<Rightarrow> case y of (e', s', p', r') \<Rightarrow>
        s > s' \<or> (s = s' \<and> (r > r' \<or> (r = r' \<and> p \<ge> p'))))"

text \<open>
  A number rounded to two decimals: the nearer of the two neighbouring hundredths, the even
  one when both are equally near (the rule of \<^verbatim>\<open>round\<close>, for exact arithmetic).
\<close>

definition spec_round2 :: "real \<Rightarrow> real" where
  "spec_round2 x =
     (let lo = \<lfloor>x * 100\<rfloor>; hi = \<lceil>x * 100\<rceil>
      in of_int (if x * 100 - of_int lo < of_int hi - x * 100 then lo
                 else if of_int hi - x * 100 < x * 100 - of_int lo then hi
                 else if even lo then lo else hi) / 100)"

text \<open>
  The row of a reranked candidate: its id, its substring score rounded to two decimals,
  its popularity, its rerank score rounded to two decimals; substring score and popularity
  are those of the mention's table, 0.0 and 0 for an id that the table does not have.
\<close>

definition spec_lookup :: "(string \<times> real \<times> int) list \<Rightarrow> string \<Rightarrow> real \<times> int" where
  "spec_lookup entities_scores e =
     (if e \<in> fst ` set entities_scores then the (map_of entities_scores e) else (0, 0))"

definition spec_row ::
  "(string \<times> real \<times> int) list \<Rightarrow> string \<times> real \<Rightarrow> string \<times> real \<times> int \<times> real" where
  "spec_row entities_scores x =
     (fst x, spec_round2 (fst (spec_lookup entities_scores (fst x))),
      snd (spec_lookup entities_scores (fst x)), spec_round2 (snd x))"

text \<open>A row is kept when its rounded rerank score is above 0.001 and its id starts with Q.\<close>

definition spec_kept :: "string \<times> real \<times> int \<times> real \<Rightarrow> bool" where
  "spec_kept x \<longleftrightarrow>
     snd (snd (snd x)) > 0.001 \<and> (case fst x of [] \<Rightarrow> False | c # cs \<Rightarrow> c = CHR ''Q'')"

text \<open>
  The kept rows in descending order of (substring score, rerank score, popularity), rows
  equal on the three in the order of the reranker's answer.
\<close>

definition spec_rows ::
  "(string \<times> real \<times> int) list \<Rightarrow> (string \<times> real) list \<Rightarrow> (string \<times> real \<times> int \<times> real) list" where
  "spec_rows entities_scores scores =
     rev (sort_key (\<lambda>x. (fst (snd x), snd (snd (snd x)), fst (snd (snd x))))
            (rev (filter spec_kept (map (spec_row entities_scores) scores))))"

text \<open>
  Claim C6 read in its own words, on the scores as the reranker returned them: a candidate
  is dropped when its rerank score is at most 0.001 or its id does not start with Q, and
  the others are put in descending order of (substring score, rerank score, popularity).
\<close>

definition claimed_rows ::
  "(string \<times> real \<times> int) list \<Rightarrow> (string \<times> real) list \<Rightarrow> (string \<times> real \<times> int \<times> real) list" where
  "claimed_rows entities_scores scores =
     rev (sort_key (\<lambda>x. (fst (snd x), snd (snd (snd x)), fst (snd (snd x))))
            (rev (filter spec_kept
                    (map (\<lambda>x. (fst x, fst (spec_lookup entities_scores (fst x)),
                               snd (spec_lookup entities_scores (fst x)), snd x)) scores))))"

subsection \<open>The chunker on a long sentence without commas\<close>

text \<open>
  A sentence of 500 one-letter Russian words with a final period, and a chunker with the
  constructor's defaults. On a text of one-letter words every character that is not a
  space is one token; a text whose only period is its last character is one sentence.
\<close>

definition ex_chunker :: chunker where
  "ex_chunker =
     \<lparr>max_seq_len = 400, max_chunk_len = 180, batch_size = 30,
      sent_tokenize = (\<lambda>doc_piece. [doc_piece]),
      tokens_len = (\<lambda>s. length (filter (\<lambda>c. \<not> is_space c) s))\<rparr>"

definition ex_long_sentence :: ustr where
  "ex_long_sentence = join [0x20] (replicate 500 [0x430]) @ [0x2E]"

subsection \<open>The top-level call\<close>

definition spec_sentinel_ids :: "linker \<Rightarrow> ids" where
  "spec_sentinel_ids L =
     (if num_entities_to_return L = 1 then Single not_found_str else Many [not_found_str])"

definition spec_sentinel_conf :: "linker \<Rightarrow> confs" where
  "spec_sentinel_conf L =
     (if num_entities_to_return L = 1 then CSingle (Conf 0 0 0) else CMany [Conf 0 0 0])"

text \<open>The mentions of a document as the loop of \<^verbatim>\<open>__call__\<close> sees them, and the two groups.\<close>

definition mentions_of ::
  "ustr list \<times> string list \<times> (int \<times> int) list \<Rightarrow> (ustr \<times> string \<times> int \<times> int) list" where
  "mentions_of d = (case d of (entity_substr_list, tags_list, entity_offsets_list) \<Rightarrow>
     zip entity_substr_list (zip tags_list entity_offsets_list))"

definition deny_listed ::
  "ustr list \<times> string list \<times> (int \<times> int) list \<Rightarrow> (ustr \<times> string \<times> int \<times> int) list" where
  "deny_listed d = filter (\<lambda>m. nf (fst m)) (mentions_of d)"

definition retrieved ::
  "ustr list \<times> string list \<times> (int \<times> int) list \<Rightarrow> (ustr \<times> string \<times> int \<times> int) list" where
  "retrieved d = filter (\<lambda>m. \<not> nf (fst m)) (mentions_of d)"

text \<open>The example: a sentence with the mentions "moskva" (Cyrillic) and "ooo romashka".\<close>

definition ex_moskva :: ustr where
  "ex_moskva = [0x43C, 0x43E, 0x441, 0x43A, 0x432, 0x430]"

definition ex_ooo_romashka :: ustr where
  "ex_ooo_romashka = [0x43E, 0x43E, 0x43E, 0x20, 0x440, 0x43E, 0x43C, 0x430, 0x448, 0x43A, 0x430]"

text \<open>The same linker in single-answer mode.\<close>

definition ex_linker_single :: linker where
  "ex_linker_single = ex_linker\<lparr>num_entities_to_return := 1\<rparr>"

definition ex_sentence :: ustr where
  "ex_sentence = ex_moskva @ [0x20, 0x438, 0x20] @ ex_ooo_romashka"

definition ex_out :: linked where
  "ex_out =
     \<lparr>out_entity_substr_batch = [[ex_ooo_romashka, ex_moskva]],
      out_conf_batch = Some [[CMany [Conf 0 0 0], CMany [Conf 1 100 1]]],
      out_entity_offsets_batch = [[(9, 20), (0, 6)]],
      out_entity_ids_batch = [[Many [not_found_str], Many [''Q649'']]],
      out_tags_batch = [[''ORG'', ''LOC'']],
      out_entity_labels_batch = [[LMany [not_found_str], LMany [''Q649'']]]\<rparr>"

subsection \<open>The words that link_entities collects\<close>

text \<open>
  The forms under which a word is looked up, and the entries (mention number, word count,
  tag, form) that \<^verbatim>\<open>link_entities\<close> records for a word, a mention and a document.
\<close>

definition spec_forms :: "linker \<Rightarrow> ustr \<Rightarrow> ustr list" where
  "spec_forms L word = (if word \<noteq> morph_parse L word then [word, morph_parse L word] else [word])"

fun spec_mention_entries ::
  "linker \<Rightarrow> nat \<Rightarrow> string \<Rightarrow> nat \<Rightarrow> ustr list \<Rightarrow> (nat \<times> nat \<times> string \<times> ustr) list" where
  "spec_mention_entries L i tag wc [] = []"
| "spec_mention_entries L i tag wc (word # ws) =
     map (\<lambda>w. (i, wc, tag, w)) (spec_forms L word) @ spec_mention_entries L i tag (Suc wc) ws"

fun spec_doc_entries ::
  "linker \<Rightarrow> nat \<Rightarrow> nat \<Rightarrow> (ustr list \<times> string) list \<Rightarrow> (nat \<times> nat \<times> string \<times> ustr) list" where
  "spec_doc_entries L i wc [] = []"
| "spec_doc_entries L i wc (m # ms) =
     spec_mention_entries L i (snd m) wc (fst m) @
     spec_doc_entries L (Suc i) (wc + length (fst m)) ms"

definition entry_form :: "nat \<times> nat \<times> string \<times> ustr \<Rightarrow> ustr" where
  "entry_form e = snd (snd (snd e))"

definition indexed :: "linker \<Rightarrow> ustr \<Rightarrow> bool" where
  "indexed L w \<longleftrightarrow> w \<in> set (word_list L)"

text \<open>The five lists, extended by the lists that belong to some entries.\<close>

definition dw_app :: "linker \<Rightarrow> doc_words \<Rightarrow> (nat \<times> nat \<times> string \<times> ustr) list \<Rightarrow> doc_words" where
  "dw_app L dw es =
     \<lparr>indices = indices dw @ map fst es,
      word_fnd_flags = word_fnd_flags dw @ map (\<lambda>e. indexed L (entry_form e)) es,
      word_counts = word_counts dw @ map (\<lambda>e. fst (snd e)) es,
      word_tags = word_tags dw @ map (\<lambda>e. fst (snd (snd e))) es,
      fnd_words = fnd_words dw @ filter (indexed L) (map entry_form es)\<rparr>"

definition dw_empty :: doc_words where
  "dw_empty = \<lparr>indices = [], word_fnd_flags = [], word_counts = [], word_tags = [], fnd_words = []\<rparr>"

definition nf_part :: "linker \<Rightarrow> nat \<Rightarrow> (nat \<times> nat \<times> string \<times> ustr) list \<Rightarrow> (ustr \<times> nat) list" where
  "nf_part L doc_num es = map (\<lambda>w. (w, doc_num)) (filter (\<lambda>w. \<not> indexed L w) (map entry_form es))"

text \<open>The number of words of the mentions of a document, and of the documents before one.\<close>

definition doc_word_total :: "(ustr list \<times> string) list \<Rightarrow> nat" where
  "doc_word_total ms = sum_list (map (\<lambda>m. length (fst m)) ms)"

subsection \<open>The words of a batch\<close>

text \<open>The entries of the documents of a batch, one list for each document.\<close>

fun spec_batch_entries ::
  "linker \<Rightarrow> nat \<Rightarrow> (ustr list list \<times> string list) list \<Rightarrow> (nat \<times> nat \<times> string \<times> ustr) list list" where
  "spec_batch_entries L wc [] = []"
| "spec_batch_entries L wc (d # ds) =
     spec_doc_entries L 0 wc (zip (fst d) (snd d)) #
     spec_batch_entries L (wc + doc_word_total (zip (fst d) (snd d))) ds"

subsection \<open>Types of the candidates\<close>

definition spec_in_types :: "linker \<Rightarrow> string \<Rightarrow> string \<Rightarrow> bool" where
  "spec_in_types L tag entity =
     (case entities_types_sets L tag of None \<Rightarrow> False | Some ids \<Rightarrow> entity \<in> ids)"

definition spec_typed :: "linker \<Rightarrow> string \<Rightarrow> string \<Rightarrow> bool" where
  "spec_typed L tag entity \<longleftrightarrow> spec_in_types L tag entity \<or> spec_in_types L ''AMB'' entity"

definition typed_cands :: "linker \<Rightarrow> string \<Rightarrow> ((string \<times> nat) \<times> real) list \<Rightarrow> bool" where
  "typed_cands L tag cands \<longleftrightarrow> list_all (\<lambda>c. spec_typed L tag (fst (fst c))) cands"

definition typed_dict ::
  "linker \<Rightarrow> string list \<Rightarrow> (nat \<times> (string \<times> nat \<times> real) list) list \<Rightarrow> bool" where
  "typed_dict L tags d \<longleftrightarrow>
     list_all (\<lambda>kv. list_all (\<lambda>c. fst kv < length tags \<and> spec_typed L (tags ! fst kv) (fst c))
                       (snd kv)) d"

definition cand_inv ::
  "linker \<Rightarrow> string list \<Rightarrow> (nat \<times> nat \<times> string \<times> bool) set \<Rightarrow> cand_state \<Rightarrow> bool" where
  "cand_inv L tags S st \<longleftrightarrow>
     typed_dict L tags (candidate_entities_dict st) \<and>
     (candidate_entities st = [] \<or>
      (prev_index st < length tags \<and>
       typed_cands L (tags ! prev_index st) (candidate_entities st) \<and>
       last_index st = Some (prev_index st) \<and>
       (\<exists>x \<in> S. fst x = prev_index st \<and> fst (snd x) = prev_word_count st)))"

subsection \<open>Candidate generation keeps to the types\<close>

definition ex_words :: doc_words where
  "ex_words =
     \<lparr>indices = [0], word_fnd_flags = [True], word_counts = [0], word_tags = [''LOC''],
      fnd_words = [ex_moskva]\<rparr>"

subsection \<open>The lookup policy\<close>

text \<open>The forms of the words of the mentions of a document, in the order of the loops.\<close>

definition spec_doc_forms :: "linker \<Rightarrow> (ustr list \<times> string) list \<Rightarrow> ustr list" where
  "spec_doc_forms L ms = concat (map (\<lambda>m. concat (map (spec_forms L) (fst m))) ms)"

text \<open>The list the loop over the word forms of a document runs through.\<close>

definition loop_list :: "doc_words \<Rightarrow> (nat \<times> nat \<times> string \<times> bool) list" where
  "loop_list dw = zip (indices dw) (zip (word_counts dw) (zip (word_tags dw) (word_fnd_flags dw)))"

text \<open>The similarities for a row of the fuzzy index.\<close>

definition spec_similarities :: "linker \<Rightarrow> row \<Rightarrow> ((ustr + int) \<times> real) list" where
  "spec_similarities L r =
     zip (map Inr (snd r))
       (if num_faiss_cells L > 1 then map (\<lambda>d. 1 - d) (fst r) else fst r)"

definition cand_init :: "nat option \<Rightarrow> cand_state" where
  "cand_init index0 =
     \<lparr>candidate_entities_dict = [], prev_word_count = 0, prev_index = 0,
      candidate_entities = [], words_i = 0, ind_i = 0, last_index = index0\<rparr>"

text \<open>The word "moskvu" (Cyrillic), which the example index does not hold.\<close>

definition ex_moskvu :: ustr where
  "ex_moskvu = [0x43C, 0x43E, 0x441, 0x43A, 0x432, 0x443]"

text \<open>A list cut into consecutive pieces of the given lengths.\<close>

fun chop :: "nat list \<Rightarrow> 'a list \<Rightarrow> 'a list list" where
  "chop [] xs = []"
| "chop (n # ns) xs = take n xs # chop ns (drop n xs)"

text \<open>
  The forms of a document that the inverted index does not have, the query that the
  documents of a batch make of them, and the position in it of the form \<open>j\<close> of document
  \<open>k\<close> (when that form is one of them).
\<close>

definition spec_absent :: "linker \<Rightarrow> ustr list list \<times> string list \<Rightarrow> ustr list" where
  "spec_absent L d = filter (\<lambda>w. \<not> indexed L w) (spec_doc_forms L (zip (fst d) (snd d)))"

definition spec_query :: "linker \<Rightarrow> ustr list list list \<Rightarrow> string list list \<Rightarrow> ustr list" where
  "spec_query L esb tb = concat (map (spec_absent L) (zip esb tb))"

definition spec_pos :: "linker \<Rightarrow> ustr list list list \<Rightarrow> string list list \<Rightarrow> nat \<Rightarrow> nat \<Rightarrow> nat" where
  "spec_pos L esb tb k j =
     length (spec_query L (take k esb) (take k tb)) +
     length (filter (\<lambda>w. \<not> indexed L w) (take j (spec_doc_forms L (zip (esb ! k) (tb ! k)))))"

text \<open>
  The rows of the documents, each with the number of its document, and what the loop of
  \<open>regroup\<close> keeps true after the rows of \<open>k\<close> documents: \<open>pre\<close> is the list of their rows.
\<close>

definition tagged :: "nat \<Rightarrow> 'a list list \<Rightarrow> ('a \<times> nat) list" where
  "tagged k bs = concat (map (\<lambda>x. map (\<lambda>r. (r, fst x)) (snd x)) (zip [k..<k + length bs] bs))"

definition ginv :: "'a list list \<Rightarrow> nat \<Rightarrow> 'a list list \<times> 'a list \<times> nat \<Rightarrow> bool" where
  "ginv pre k st \<longleftrightarrow>
     (case st of (B, Dl, prev) \<Rightarrow>
        prev < k \<and> length B = prev \<and> B @ [Dl] @ replicate (k - 1 - prev) [] = pre)"

text \<open>The words of the second document of a batch whose first document has one word.\<close>

definition ex_words_nf1 :: doc_words where
  "ex_words_nf1 =
     \<lparr>indices = [0], word_fnd_flags = [False], word_counts = [1], word_tags = [''LOC''],
      fnd_words = []\<rparr>"
section \<open>Properties\<close>

subsection \<open>Loops and dictionaries\<close>

lemma map_of_dict_upd: "map_of (dict_upd d k v) = (map_of d)(k \<mapsto> v)"
  by (induction d k v rule: dict_upd.induct) auto

lemma keys_dict_upd:
  "map fst (dict_upd d k v) = (if k \<in> fst ` set d then map fst d else map fst d @ [k])"
  by (induction d k v rule: dict_upd.induct) (auto simp: image_iff)

lemma distinct_dict_upd: "distinct (map fst d) \<Longrightarrow> distinct (map fst (dict_upd d k v))"
  by (simp add: keys_dict_upd)

subsection \<open>\<^verbatim>\<open>sum_scores\<close>\<close>

lemma sums_step_keys:
  "fst ` set (sums_step d c) = insert (fst c, fst (snd c)) (fst ` set d)"
proof -
  obtain e l s where c: "c = (e, l, s)" by (cases c)
  have "set (map fst (sums_step d c)) = insert (e, l) (set (map fst d))"
    unfolding c sums_step_def by (simp only: prod.case keys_dict_upd) auto
  then show ?thesis by (simp add: c)
qed

lemma sums_step_distinct: "distinct (map fst d) \<Longrightarrow> distinct (map fst (sums_step d c))"
  by (cases c) (simp add: sums_step_def distinct_dict_upd)

lemma sums_step_val:
  "dict_val (sums_step d c) k =
     dict_val d k + (if fst c = fst k \<and> fst (snd c) = snd k then snd (snd c) else 0)"
  by (cases c; cases k) (auto simp: sums_step_def dict_val_def map_of_dict_upd)

lemma sums_fold_keys:
  "fst ` set (foldl sums_step d cands) = fst ` set d \<union> (\<lambda>c. (fst c, fst (snd c))) ` set cands"
  by (induction cands arbitrary: d) (auto simp: sums_step_keys)

lemma sums_fold_distinct:
  "distinct (map fst d) \<Longrightarrow> distinct (map fst (foldl sums_step d cands))"
  by (induction cands arbitrary: d) (auto simp: sums_step_distinct)

lemma sums_fold_val:
  "dict_val (foldl sums_step d cands) (e, l) = dict_val d (e, l) + spec_score_sum cands e l"
  by (induction cands arbitrary: d) (auto simp: sums_step_val spec_score_sum_def)

lemma sums_fold_set:
  "set (foldl sums_step [] cands) =
     (\<lambda>c. ((fst c, fst (snd c)), spec_score_sum cands (fst c) (fst (snd c)))) ` set cands"
proof -
  let ?d = "foldl sums_step [] cands"
  have dist: "distinct (map fst ?d)" by (rule sums_fold_distinct) simp
  have keys: "fst ` set ?d = (\<lambda>c. (fst c, fst (snd c))) ` set cands"
    using sums_fold_keys [of "[]" cands] by simp
  have val: "v = spec_score_sum cands e l" if "((e, l), v) \<in> set ?d" for e l v
  proof -
    from that dist have "map_of ?d (e, l) = Some v" by simp
    then have "dict_val ?d (e, l) = v" by (simp add: dict_val_def)
    moreover have "dict_val [] (e, l) = (0::real)" by (simp add: dict_val_def)
    ultimately show ?thesis using sums_fold_val [of "[]" cands e l] by simp
  qed
  show ?thesis
  proof (intro set_eqI iffI)
    fix x assume x: "x \<in> set ?d"
    obtain e l v where xe: "x = ((e, l), v)" by (cases x) auto
    from x have "(e, l) \<in> fst ` set ?d" by (force simp: xe)
    then obtain c where c: "c \<in> set cands" "fst c = e" "fst (snd c) = l"
      unfolding keys by auto
    from x val have "v = spec_score_sum cands e l" by (simp add: xe)
    with c show "x \<in> (\<lambda>c. ((fst c, fst (snd c)), spec_score_sum cands (fst c) (fst (snd c)))) ` set cands"
      by (auto simp: xe image_iff intro!: bexI [of _ c])
  next
    fix x assume "x \<in> (\<lambda>c. ((fst c, fst (snd c)), spec_score_sum cands (fst c) (fst (snd c)))) ` set cands"
    then obtain c where c: "c \<in> set cands"
      and x: "x = ((fst c, fst (snd c)), spec_score_sum cands (fst c) (fst (snd c)))" by auto
    from c have "(fst c, fst (snd c)) \<in> fst ` set ?d" unfolding keys by auto
    then obtain v where v: "((fst c, fst (snd c)), v) \<in> set ?d" by auto
    with val have "v = spec_score_sum cands (fst c) (fst (snd c))" by simp
    with v x show "x \<in> set ?d" by simp
  qed
qed

lemma norm_step_map_of:
  assumes "norm_step n acc kv = Inr acc'"
  shows "map_of acc' e = best (map_of acc e) (norm_vals n e [kv])"
  using assms
  by (cases kv)
     (auto simp: norm_step_def Let_def best_def norm_vals_def spec_normalized_def map_of_dict_upd
           max_def split: if_splits option.splits prod.splits)

lemma best_append: "best (best old xs) ys = best old (xs @ ys)"
  by (cases old; cases xs) (auto simp: best_def)

lemma norm_fold_map_of:
  "foldl_r (norm_step n) acc kvs = Inr res \<Longrightarrow> map_of res e = best (map_of acc e) (norm_vals n e kvs)"
proof (induction kvs arbitrary: acc)
  case Nil
  then show ?case by (cases "map_of acc e") (auto simp: best_def norm_vals_def)
next
  case (Cons kv kvs)
  from Cons.prems obtain acc' where s: "norm_step n acc kv = Inr acc'"
    and r: "foldl_r (norm_step n) acc' kvs = Inr res"
    by (auto split: sum.splits)
  have "map_of res e = best (best (map_of acc e) (norm_vals n e [kv])) (norm_vals n e kvs)"
    using Cons.IH [OF r] norm_step_map_of [OF s] by simp
  also have "\<dots> = best (map_of acc e) (norm_vals n e [kv] @ norm_vals n e kvs)"
    by (rule best_append)
  also have "norm_vals n e [kv] @ norm_vals n e kvs = norm_vals n e (kv # kvs)"
    by (simp add: norm_vals_def)
  finally show ?case .
qed

lemma norm_step_distinct:
  "norm_step n acc kv = Inr acc' \<Longrightarrow> distinct (map fst acc) \<Longrightarrow> distinct (map fst acc')"
  by (cases kv) (auto simp: norm_step_def Let_def distinct_dict_upd split: if_splits option.splits)

lemma norm_fold_distinct:
  "foldl_r (norm_step n) acc kvs = Inr res \<Longrightarrow> distinct (map fst acc) \<Longrightarrow> distinct (map fst res)"
  by (induction kvs arbitrary: acc) (auto split: sum.splits dest: norm_step_distinct)

lemma norm_step_total:
  "0 < max n (snd (fst kv)) \<Longrightarrow> \<exists>acc'. norm_step n acc kv = Inr acc'"
  by (cases kv) (auto simp: norm_step_def Let_def split: option.splits)

lemma norm_fold_total:
  "list_all (\<lambda>kv. 0 < max n (snd (fst kv))) kvs \<Longrightarrow> \<exists>res. foldl_r (norm_step n) acc kvs = Inr res"
proof (induction kvs arbitrary: acc)
  case Nil
  then show ?case by simp
next
  case (Cons kv kvs)
  then obtain acc' where "norm_step n acc kv = Inr acc'"
    using norm_step_total [of n kv acc] by auto
  with Cons show ?case by auto
qed

lemma best_None_Max: "vs \<noteq> [] \<Longrightarrow> best None vs = Some (Max (set vs))"
  by (cases vs) (simp_all add: best_def Max.set_eq_fold [symmetric])

lemma norm_vals_set:
  "set (norm_vals n e (foldl sums_step [] cands)) =
     (\<lambda>l. spec_normalized n (spec_score_sum cands e l) l) ` spec_label_lens cands e"
proof -
  let ?g = "\<lambda>l. spec_normalized n (spec_score_sum cands e l) l"
  have "set (norm_vals n e (foldl sums_step [] cands)) =
      (\<lambda>kv. spec_normalized n (snd kv) (snd (fst kv))) `
        {kv \<in> (\<lambda>c. ((fst c, fst (snd c)), spec_score_sum cands (fst c) (fst (snd c)))) ` set cands.
           fst (fst kv) = e}"
    by (simp add: norm_vals_def sums_fold_set)
  also have "\<dots> = ?g ` (\<lambda>c. fst (snd c)) ` {c \<in> set cands. fst c = e}"
    by (force simp: image_iff)
  finally show ?thesis by (simp add: spec_label_lens_def)
qed

text \<open>
  Claim C3. For a list of candidate triples (entity id, label length, similarity) and a
  mention of \<open>substr_len\<close> words, \<open>sum_scores\<close> returns one entry per entity id of the
  list; its score is the largest, over the label lengths under which the id occurs, of
  \<open>min score_sum label_len / max substr_len label_len\<close>, where \<open>score_sum\<close> adds the
  similarities of the triples with that id and that label length. The call returns
  whenever the quotient is defined for every triple: the mention has a word or every
  label length is positive.
\<close>

theorem sum_scores_fuses:
  assumes "0 < substr_len \<or> list_all (\<lambda>c. 0 < fst (snd c)) cands"
  shows "\<exists>res. sum_scores cands substr_len = Inr res \<and> distinct (map fst res) \<and>
           fst ` set res = fst ` set cands \<and>
           (\<forall>e \<in> fst ` set cands.
              map_of res e =
                Some (Max ((\<lambda>l. spec_normalized substr_len (spec_score_sum cands e l) l) `
                             spec_label_lens cands e)))"
proof -
  let ?d = "foldl sums_step [] cands"
  have "list_all (\<lambda>kv. 0 < max substr_len (snd (fst kv))) ?d"
    using assms unfolding list_all_iff sums_fold_set by auto
  then obtain res where res: "foldl_r (norm_step substr_len) [] ?d = Inr res"
    using norm_fold_total by blast
  have m: "map_of res e = best None (norm_vals substr_len e ?d)" for e
    using norm_fold_map_of [OF res, of e] by simp
  have dist: "distinct (map fst res)"
    using norm_fold_distinct [OF res] by simp
  have ne: "norm_vals substr_len e ?d \<noteq> [] \<longleftrightarrow> e \<in> fst ` set cands" for e
  proof -
    have "norm_vals substr_len e ?d \<noteq> [] \<longleftrightarrow> set (norm_vals substr_len e ?d) \<noteq> {}"
      by simp
    also have "\<dots> \<longleftrightarrow> spec_label_lens cands e \<noteq> {}"
      unfolding norm_vals_set by simp
    also have "\<dots> \<longleftrightarrow> e \<in> fst ` set cands"
      by (force simp: spec_label_lens_def filter_empty_conv image_iff)
    finally show ?thesis .
  qed
  have keys: "fst ` set res = fst ` set cands"
  proof -
    have "fst ` set res = dom (map_of res)" by (simp add: dom_map_of_conv_image_fst)
    also have "\<dots> = {e. norm_vals substr_len e ?d \<noteq> []}"
      by (auto simp: m best_def split: list.splits)
    also have "\<dots> = fst ` set cands" using ne by auto
    finally show ?thesis .
  qed
  have vals: "map_of res e =
      Some (Max ((\<lambda>l. spec_normalized substr_len (spec_score_sum cands e l) l) `
                   spec_label_lens cands e))" if "e \<in> fst ` set cands" for e
    using that ne [of e] m [of e] by (simp add: best_None_Max norm_vals_set)
  from res dist keys vals show ?thesis by (auto simp: sum_scores_def)
qed

theorem sum_scores_fuses_witness:
  "sum_scores [(''Q1'', 2, 1), (''Q2'', 1, 0.5), (''Q1'', 2, 0.5), (''Q1'', 1, 1)] 2 =
     Inr [(''Q1'', 0.75), (''Q2'', 0.25)] \<and>
   map_of [(''Q1'', 0.75 :: real), (''Q2'', 0.25)] ''Q1'' =
     Some (Max ((\<lambda>l. spec_normalized 2
                  (spec_score_sum [(''Q1'', 2, 1), (''Q2'', 1, 0.5), (''Q1'', 2, 0.5), (''Q1'', 1, 1)] ''Q1'' l) l) `
                 spec_label_lens [(''Q1'', 2, 1), (''Q2'', 1, 0.5), (''Q1'', 2, 0.5), (''Q1'', 1, 1)] ''Q1''))"
proof -
  have ev: "sum_scores [(''Q1'', 2, 1), (''Q2'', 1, 0.5), (''Q1'', 2, 0.5), (''Q1'', 1, 1)] 2 =
     Inr [(''Q1'', 0.75), (''Q2'', 0.25)]"
    by (simp add: sum_scores_def sums_step_def norm_step_def)
  have h: "0 < (2::nat) \<or> list_all (\<lambda>c. 0 < fst (snd c))
      [(''Q1'', 2::nat, 1::real), (''Q2'', 1, 0.5), (''Q1'', 2, 0.5), (''Q1'', 1, 1)]" by simp
  from sum_scores_fuses [OF h] ev show ?thesis by auto
qed

subsection \<open>\<^verbatim>\<open>find_labels\<close>\<close>

lemma map_r_raises:
  assumes "x \<in> set xs" and "f x = Inl e" and "\<And>y e'. f y = Inl e' \<Longrightarrow> e' = e"
  shows "map_r f xs = Inl e"
  using assms(1)
proof (induction xs)
  case Nil
  then show ?case by simp
next
  case (Cons y ys)
  show ?case
  proof (cases "f y")
    case (Inl e')
    with assms(3) show ?thesis by simp
  next
    case (Inr z)
    with Cons assms(2) have "map_r f ys = Inl e" by auto
    with Inr show ?thesis by simp
  qed
qed

lemma find_labels_one_error: "find_labels_one L x = Inl e \<Longrightarrow> e = NameError"
  by (cases x) auto

lemma find_labels_list_error:
  "map_r (find_labels_one L) xs = Inl e \<Longrightarrow> e = NameError"
  by (induction xs) (auto split: sum.splits dest: find_labels_one_error)

lemma map_r_map: "map_r (\<lambda>x. Inr (g x)) xs = Inr (map g xs)"
  by (induction xs) auto

lemma find_labels_many:
  "find_labels L (map (map Many) entity_ids_batch) =
     Inr (map (map (\<lambda>entity_ids. LMany (map (\<lambda>entity_id.
            case q_to_label L entity_id of None \<Rightarrow> entity_id | Some l \<Rightarrow> l) entity_ids)))
          entity_ids_batch)"
proof -
  have one: "map_r (find_labels_one L) (map Many xs) =
      Inr (map (\<lambda>entity_ids. LMany (map (\<lambda>entity_id.
            case q_to_label L entity_id of None \<Rightarrow> entity_id | Some l \<Rightarrow> l) entity_ids)) xs)" for xs
    by (induction xs) auto
  show ?thesis
    unfolding find_labels_def by (induction entity_ids_batch) (auto simp: one)
qed

text \<open>
  Claim C10 (the code departs from it). \<open>find_labels\<close> raises \<^verbatim>\<open>NameError\<close> on every batch
  in which some result is a single entity id, the shape of single-answer mode, whatever
  the label table holds; no label is returned. (For results that are lists of ids the
  labels are those of the table, with the id itself where the table has none:
  \<open>find_labels_many\<close>.)
\<close>

theorem find_labels_single_raises:
  "find_labels L (docs1 @ [ms1 @ [Single entity_id] @ ms2] @ docs2) = Inl NameError"
proof -
  have "map_r (find_labels_one L) (ms1 @ [Single entity_id] @ ms2) = Inl NameError"
    by (rule map_r_raises [where x = "Single entity_id"])
       (auto dest: find_labels_one_error)
  then show ?thesis
    unfolding find_labels_def
    by (intro map_r_raises [where x = "ms1 @ [Single entity_id] @ ms2"])
       (auto dest: find_labels_list_error)
qed

subsection \<open>Ranking before reranking\<close>

lemma mset_sorted_rev: "mset (sorted_rev f xs) = mset xs"
  by (simp add: sorted_rev_def)

lemma set_sorted_rev: "set (sorted_rev f xs) = set xs"
  by (simp add: sorted_rev_def)

lemma length_sorted_rev: "length (sorted_rev f xs) = length xs"
  by (simp add: sorted_rev_def)

lemma sorted_rev_descending: "sorted_wrt (\<lambda>x y. f x \<ge> f y) (sorted_rev f xs)"
proof -
  have "sorted (map f (sort_key f (rev xs)))" by simp
  then have "sorted_wrt (\<lambda>x y. f x \<le> f y) (sort_key f (rev xs))"
    by (simp add: sorted_map)
  then show ?thesis
    unfolding sorted_rev_def by (simp add: sorted_wrt_rev)
qed

lemma sorted_rev_stable:
  "filter (\<lambda>x. f x = k) (sorted_rev f xs) = filter (\<lambda>x. f x = k) xs"
proof -
  have "filter (\<lambda>x. f x = k) (sorted_rev f xs) = rev (filter (\<lambda>x. f x = k) (sort_key f (rev xs)))"
    by (simp add: sorted_rev_def rev_filter)
  also have "\<dots> = rev (filter (\<lambda>x. f x = k) (rev xs))"
    by (simp only: sort_key_stable)
  also have "\<dots> = filter (\<lambda>x. f x = k) xs"
    by (simp add: rev_filter)
  finally show ?thesis .
qed

lemma sorted_rev_Nil_iff: "sorted_rev f xs = [] \<longleftrightarrow> xs = []"
  using length_sorted_rev [of f xs] by (metis length_0_conv)

lemma with_pop_spec: "with_pop L (e, s) = (e, s, spec_popularity L e)"
  by (auto simp: with_pop_def spec_popularity_def split: option.splits)

lemma with_pop_spec_map:
  "map (with_pop L) fused = map (\<lambda>c. (fst c, snd c, spec_popularity L (fst c))) fused"
  by (induction fused) (auto simp: with_pop_spec)

text \<open>
  Claim C4. The ranking before reranking pairs every fused candidate with its popularity
  (0 for an entity the popularity table lacks); the ranked list is a rearrangement of
  these triples, in descending order of substring score, then of popularity, and
  candidates equal on both keep their order in the fused list. The ids handed to the
  reranker are the first \<open>num_entities_for_bert_ranking\<close> of it; the ids returned are the
  first \<open>num_entities_to_return\<close> of those, or the first id alone when the return budget
  is 1 and there is a candidate.
\<close>

theorem rank_mention_spec:
  "mset (rank_candidates L fused) =
     mset (map (\<lambda>c. (fst c, snd c, spec_popularity L (fst c))) fused) \<and>
   sorted_wrt spec_ranks_before (rank_candidates L fused) \<and>
   (\<forall>s p. filter (\<lambda>x. fst (snd x) = s \<and> snd (snd x) = p) (rank_candidates L fused) =
          filter (\<lambda>x. fst (snd x) = s \<and> snd (snd x) = p)
            (map (\<lambda>c. (fst c, snd c, spec_popularity L (fst c))) fused)) \<and>
   to_rerank (rank_mention L fused) =
     take (num_entities_for_bert_ranking L) (map fst (rank_candidates L fused)) \<and>
   ranked_ids (rank_mention L fused) =
     (if num_entities_to_return L = 1 \<and> to_rerank (rank_mention L fused) \<noteq> []
      then Single (hd (to_rerank (rank_mention L fused)))
      else Many (take (num_entities_to_return L) (to_rerank (rank_mention L fused))))"
proof -
  let ?key = "\<lambda>x :: string \<times> real \<times> int. (fst (snd x), snd (snd x))"
  have 1: "mset (rank_candidates L fused) =
      mset (map (\<lambda>c. (fst c, snd c, spec_popularity L (fst c))) fused)"
    by (simp add: rank_candidates_def mset_sorted_rev with_pop_spec_map)
  have "sorted_wrt (\<lambda>x y. ?key x \<ge> ?key y) (rank_candidates L fused)"
    unfolding rank_candidates_def by (rule sorted_rev_descending)
  then have 2: "sorted_wrt spec_ranks_before (rank_candidates L fused)"
    by (rule sorted_wrt_mono_rel [rotated])
       (auto simp: spec_ranks_before_def less_eq_prod_def)
  have 3: "filter (\<lambda>x. fst (snd x) = s \<and> snd (snd x) = p) (rank_candidates L fused) =
          filter (\<lambda>x. fst (snd x) = s \<and> snd (snd x) = p)
            (map (\<lambda>c. (fst c, snd c, spec_popularity L (fst c))) fused)" for s p
  proof -
    have eq: "(\<lambda>x :: string \<times> real \<times> int. fst (snd x) = s \<and> snd (snd x) = p) = (\<lambda>x. ?key x = (s, p))"
      by (auto simp: fun_eq_iff)
    show ?thesis
      unfolding eq rank_candidates_def with_pop_spec_map [symmetric]
      by (rule sorted_rev_stable)
  qed
  have 4: "to_rerank (rank_mention L fused) =
     take (num_entities_for_bert_ranking L) (map fst (rank_candidates L fused))"
    by (simp add: rank_mention_def Let_def)
  have 5: "ranked_ids (rank_mention L fused) =
     (if num_entities_to_return L = 1 \<and> to_rerank (rank_mention L fused) \<noteq> []
      then Single (hd (to_rerank (rank_mention L fused)))
      else Many (take (num_entities_to_return L) (to_rerank (rank_mention L fused))))"
    by (simp add: rank_mention_def Let_def)
  from 1 2 3 4 5 show ?thesis by blast
qed

subsection \<open>The acceptance rule\<close>

lemma top_entities_conf_spec:
  "top_entities_conf n ews =
     (if spec_rejected n ews then ([not_found_str], [Conf 0 0 0]) else (map fst ews, map conf_of ews))"
proof (cases ews)
  case Nil
  then show ?thesis by (simp add: top_entities_conf_def spec_rejected_def)
next
  case (Cons x xs)
  obtain e s p r where x: "x = (e, s, p, r)" by (cases x) auto
  have c: "(\<lambda>x. case x of (e, s, p, r) \<Rightarrow> Conf s p r) = conf_of"
    by (auto simp: conf_of_def fun_eq_iff)
  show ?thesis
    unfolding Cons x top_entities_conf_def spec_rejected_def spec_below_tier_def c
    by (simp del: map_eq_conv)
qed

lemma el_top_entities_conf_spec:
  "el_top_entities_conf ews =
     (if spec_el_rejected ews then ([not_found_str], [Conf 0 0 0]) else (map fst ews, map conf_of ews))"
proof (cases ews)
  case Nil
  then show ?thesis by (simp add: el_top_entities_conf_def spec_el_rejected_def)
next
  case (Cons x xs)
  obtain e s p r where x: "x = (e, s, p, r)" by (cases x) auto
  have c: "(\<lambda>x. case x of (e, s, p, r) \<Rightarrow> Conf s p r) = conf_of"
    by (auto simp: conf_of_def fun_eq_iff)
  show ?thesis
    unfolding Cons x el_top_entities_conf_def spec_el_rejected_def c
    by (simp del: map_eq_conv)
qed

lemma emit_spec:
  "\<not> rejected \<longrightarrow> ews \<noteq> [] \<Longrightarrow>
   emit L (if rejected then ([not_found_str], [Conf 0 0 0]) else (map fst ews, map conf_of ews)) =
     Inr (spec_emitted L rejected ews)"
  by (cases ews) (auto simp: emit_def spec_emitted_def)

subsection \<open>Rounding, and the rows of the reranked candidates\<close>

lemma py_round_nearest: "\<bar>of_int (py_round y) - y\<bar> \<le> 1 / 2"
  unfolding py_round_def Let_def by (auto simp: abs_if) linarith+

lemma py_round_positive: "py_round y \<ge> 1 \<longleftrightarrow> y > 1 / 2"
proof
  assume a: "py_round y \<ge> 1"
  show "y > 1 / 2"
  proof (rule ccontr)
    assume "\<not> y > 1 / 2"
    then have y: "y \<le> 1 / 2" by simp
    then have f: "\<lfloor>y\<rfloor> \<le> 0" by (simp add: floor_le_iff)
    show False
    proof (cases "\<lfloor>y\<rfloor> = 0")
      case True
      then have "y - of_int \<lfloor>y\<rfloor> \<le> 1 / 2" using y by simp
      with True have "py_round y = 0" by (auto simp: py_round_def Let_def)
      with a show False by simp
    next
      case False
      with f have "\<lfloor>y\<rfloor> + 1 \<le> 0" by arith
      then have "py_round y \<le> 0" by (auto simp: py_round_def Let_def)
      with a show False by simp
    qed
  qed
next
  assume y: "y > 1 / 2"
  then have f: "0 \<le> \<lfloor>y\<rfloor>" by simp
  show "py_round y \<ge> 1"
  proof (cases "\<lfloor>y\<rfloor> = 0")
    case True
    then have "y - of_int \<lfloor>y\<rfloor> > 1 / 2" using y by simp
    with True show ?thesis by (simp add: py_round_def Let_def)
  next
    case False
    with f have "1 \<le> \<lfloor>y\<rfloor>" by arith
    then show ?thesis by (auto simp: py_round_def Let_def)
  qed
qed

lemma round2_spec: "round2 x = spec_round2 x"
proof (cases "x * 100 = of_int \<lfloor>x * 100\<rfloor>")
  case True
  then have "\<lceil>x * 100\<rceil> = \<lfloor>x * 100\<rfloor>" by (simp add: ceiling_altdef)
  with True show ?thesis by (simp add: round2_def spec_round2_def py_round_def Let_def)
next
  case False
  then have c: "\<lceil>x * 100\<rceil> = \<lfloor>x * 100\<rfloor> + 1" by (simp add: ceiling_altdef)
  have "py_round (x * 100) =
      (if x * 100 - of_int \<lfloor>x * 100\<rfloor> < of_int (\<lfloor>x * 100\<rfloor> + 1) - x * 100 then \<lfloor>x * 100\<rfloor>
       else if of_int (\<lfloor>x * 100\<rfloor> + 1) - x * 100 < x * 100 - of_int \<lfloor>x * 100\<rfloor>
       then \<lfloor>x * 100\<rfloor> + 1
       else if even \<lfloor>x * 100\<rfloor> then \<lfloor>x * 100\<rfloor> else \<lfloor>x * 100\<rfloor> + 1)"
    unfolding py_round_def Let_def by auto
  then show ?thesis by (simp only: round2_def spec_round2_def Let_def c)
qed

lemma spec_round2_nearest: "\<bar>spec_round2 x - x\<bar> \<le> 1 / 200"
proof -
  have "\<bar>of_int (py_round (x * 100)) - x * 100\<bar> \<le> 1 / 2" by (rule py_round_nearest)
  then have "\<bar>of_int (py_round (x * 100)) / 100 - x\<bar> \<le> 1 / 200" by (simp add: abs_if split: if_splits)
  then show ?thesis by (simp add: round2_spec [symmetric] round2_def)
qed

lemma spec_round2_hundredth: "\<exists>n :: int. spec_round2 x = of_int n / 100"
  unfolding round2_spec [symmetric] round2_def by blast

lemma spec_round2_threshold: "spec_round2 x > 0.001 \<longleftrightarrow> x > 0.005"
proof -
  have "spec_round2 x > 0.001 \<longleftrightarrow> real_of_int (py_round (x * 100)) > 1 / 10"
    by (simp add: round2_spec [symmetric] round2_def)
  also have "\<dots> \<longleftrightarrow> py_round (x * 100) \<ge> 1" by linarith
  also have "\<dots> \<longleftrightarrow> x * 100 > 1 / 2" by (rule py_round_positive)
  also have "\<dots> \<longleftrightarrow> x > 0.005" by (simp add: mult.commute)
  finally show ?thesis .
qed

lemma score_row_spec: "score_row entities_scores = spec_row entities_scores"
proof
  fix x :: "string \<times> real"
  obtain e score where x: "x = (e, score)" by (cases x)
  show "score_row entities_scores x = spec_row entities_scores x"
  proof (cases "map_of entities_scores e")
    case None
    then have "e \<notin> fst ` set entities_scores" by (simp add: map_of_eq_None_iff)
    with None show ?thesis
      by (simp add: x score_row_def spec_row_def spec_lookup_def round2_spec)
  next
    case (Some sp)
    then have "e \<in> fst ` set entities_scores" by (metis map_of_eq_None_iff option.distinct(1))
    with Some show ?thesis
      by (cases sp) (simp add: x score_row_def spec_row_def spec_lookup_def round2_spec)
  qed
qed

lemma keeps_spec: "keeps = spec_kept"
proof
  fix x :: "string \<times> real \<times> int \<times> real"
  obtain e s p r where x: "x = (e, s, p, r)" by (cases x) auto
  show "keeps x = spec_kept x"
    by (cases e) (simp_all add: x keeps_def spec_kept_def)
qed

lemma entities_with_scores_rows:
  "entities_with_scores entities_scores scores = spec_rows entities_scores scores"
  by (simp only: entities_with_scores_def spec_rows_def sorted_rev_def score_row_spec keeps_spec)

lemma el_score_rows:
  "map_r (el_score_row entities_scores) scores =
     (if list_all (\<lambda>x. fst x \<in> fst ` set entities_scores) scores
      then Inr (map (spec_row entities_scores) scores) else Inl KeyError)"
proof (induction scores)
  case Nil
  show ?case by simp
next
  case (Cons x xs)
  obtain e score where x: "x = (e, score)" by (cases x)
  show ?case
  proof (cases "map_of entities_scores e")
    case None
    then have "e \<notin> fst ` set entities_scores" by (simp add: map_of_eq_None_iff)
    with None show ?thesis by (simp add: x el_score_row_def)
  next
    case (Some sp)
    then have m: "e \<in> fst ` set entities_scores" by (metis map_of_eq_None_iff option.distinct(1))
    obtain s p where sp: "sp = (s, p)" by (cases sp)
    have "el_score_row entities_scores x = Inr (spec_row entities_scores x)"
      using Some m by (simp add: x sp el_score_row_def spec_row_def spec_lookup_def round2_spec)
    with Cons m show ?thesis by (simp add: x)
  qed
qed

lemma el_entities_with_scores_rows:
  "el_entities_with_scores entities_scores scores =
     (if list_all (\<lambda>x. fst x \<in> fst ` set entities_scores) scores
      then Inr (spec_rows entities_scores scores) else Inl KeyError)"
  by (simp add: el_entities_with_scores_def el_score_rows spec_rows_def sorted_rev_def keeps_spec)

text \<open>
  Claim C5, as amended. Every threshold is tested on the scores rounded to two decimals,
  as they stand in the rows \<open>spec_rows\<close> (a substring score of 0.996 counts as 1.0, one of
  0.504 as 0.5). After reranking, \<^verbatim>\<open>EntityLinkerSep\<close> replaces the ranking of a mention by the
  not-found sentinel with confidence (0.0, 0, 0.0) exactly when no row is kept, or the
  mention has one word and the rounded substring score of the top row is below 1.0, or the
  top row is below any one of the three tiers (rounded rerank score below 0.11 with
  popularity below 90, below 0.13 with popularity below 20, below 0.3 with popularity
  below 4), or its rounded substring score is below 0.3 or equal to 0.5; otherwise it emits
  the sorted rows cut to the return budget (the top one alone when the budget is 1).
  \<^verbatim>\<open>EntityLinker\<close> raises \<^verbatim>\<open>KeyError\<close> when the reranker names an id that the mention's
  table does not have, and else rejects exactly when no row is kept or 7.5 times the
  rounded rerank score of the top row is at most 1.
\<close>

theorem rerank_one_acceptance:
  "rerank_one L substr_len entities_scores scores =
     Inr (spec_emitted L (spec_rejected substr_len (spec_rows entities_scores scores))
            (spec_rows entities_scores scores)) \<and>
   el_rerank_one L entities_scores scores =
     (if list_all (\<lambda>x. fst x \<in> fst ` set entities_scores) scores
      then Inr (spec_emitted L (spec_el_rejected (spec_rows entities_scores scores))
                  (spec_rows entities_scores scores))
      else Inl KeyError)"
proof -
  have a: "\<not> spec_rejected n ews \<longrightarrow> ews \<noteq> []" for n ews
    by (auto simp: spec_rejected_def)
  have b: "\<not> spec_el_rejected ews \<longrightarrow> ews \<noteq> []" for ews
    by (auto simp: spec_el_rejected_def)
  have 1: "rerank_one L substr_len entities_scores scores =
     Inr (spec_emitted L (spec_rejected substr_len (spec_rows entities_scores scores))
            (spec_rows entities_scores scores))"
    unfolding rerank_one_def top_entities_conf_spec entities_with_scores_rows
    by (rule emit_spec [OF a])
  have 2: "el_rerank_one L entities_scores scores =
     (if list_all (\<lambda>x. fst x \<in> fst ` set entities_scores) scores
      then Inr (spec_emitted L (spec_el_rejected (spec_rows entities_scores scores))
                  (spec_rows entities_scores scores))
      else Inl KeyError)"
    unfolding el_rerank_one_def el_top_entities_conf_spec el_entities_with_scores_rows
    by (simp add: emit_spec [OF b])
  from 1 2 show ?thesis by blast
qed

lemma py_round_90: "py_round 90 = 90" by (simp add: py_round_def)
lemma py_round_50: "py_round 50 = 50" by (simp add: py_round_def)

text \<open>
  Claim C5 as stated fails: for a mention of two words whose only candidate has substring
  score 0.5, popularity 1000 and rerank score 0.9, candidates remain, the mention has more
  than one word and the candidate is below no tier, yet the sentinel is returned.
\<close>

theorem rerank_one_counterexample:
  "entities_with_scores [(''Q649'', 0.5, 1000)] [(''Q649'', 0.9)] = [(''Q649'', 0.5, 1000, 0.9)] \<and>
   \<not> claimed_rejected 2 [(''Q649'', 0.5, 1000, 0.9)] \<and>
   rerank_one ex_linker 2 [(''Q649'', 0.5, 1000)] [(''Q649'', 0.9)] =
     Inr (Many [not_found_str], CMany [Conf 0 0 0])"
proof -
  have e: "entities_with_scores [(''Q649'', 0.5, 1000)] [(''Q649'', 0.9)] = [(''Q649'', 0.5, 1000, 0.9)]"
    by (simp add: entities_with_scores_def score_row_def keeps_def round2_def sorted_rev_def
        py_round_90 py_round_50)
  have c: "\<not> claimed_rejected 2 [(''Q649'', 0.5, 1000, 0.9)]"
    by (simp add: claimed_rejected_def spec_below_tier_def)
  have r: "rerank_one ex_linker 2 [(''Q649'', 0.5, 1000)] [(''Q649'', 0.9)] =
     Inr (Many [not_found_str], CMany [Conf 0 0 0])"
    unfolding rerank_one_def e
    by (simp add: top_entities_conf_def emit_def ex_linker_def)
  from e c r show ?thesis by blast
qed

subsection \<open>Filtering and sorting after reranking\<close>

text \<open>
  Claim C6, as amended. The rows are built from the reranker's answer with both scores
  rounded to two decimals (\<open>spec_round2\<close>: a hundredth, at most 0.005 away), the substring
  score and the popularity looked up in the mention's table, 0.0 and 0 for an id it does
  not have. A row is dropped when its rounded rerank score is at most 0.001, which is when
  the reranker's score is at most 0.005, or when its id does not start with \<^verbatim>\<open>Q\<close>. The
  rows kept are a rearrangement of the rows that pass this filter, in descending order of
  rounded substring score, then rounded rerank score, then popularity, and rows equal on
  all three keep the order of the reranker's answer. \<^verbatim>\<open>EntityLinker\<close> does the same, except
  that it raises \<^verbatim>\<open>KeyError\<close> for an id that the table does not have.
\<close>

theorem entities_with_scores_spec:
  "mset (entities_with_scores entities_scores scores) =
     mset (filter spec_kept (map (spec_row entities_scores) scores)) \<and>
   sorted_wrt spec_rerank_before (entities_with_scores entities_scores scores) \<and>
   (\<forall>s r p. filter (\<lambda>x. fst (snd x) = s \<and> snd (snd (snd x)) = r \<and> fst (snd (snd x)) = p)
              (entities_with_scores entities_scores scores) =
            filter (\<lambda>x. fst (snd x) = s \<and> snd (snd (snd x)) = r \<and> fst (snd (snd x)) = p)
              (filter spec_kept (map (spec_row entities_scores) scores))) \<and>
   (\<forall>e score. spec_kept (spec_row entities_scores (e, score)) =
      (score > 0.005 \<and> take 1 e = ''Q'')) \<and>
   (\<forall>x. \<bar>spec_round2 x - x\<bar> \<le> 1 / 200 \<and> (\<exists>n :: int. spec_round2 x = of_int n / 100)) \<and>
   el_entities_with_scores entities_scores scores =
     (if list_all (\<lambda>x. fst x \<in> fst ` set entities_scores) scores
      then Inr (entities_with_scores entities_scores scores) else Inl KeyError)"
proof -
  let ?key = "\<lambda>x :: string \<times> real \<times> int \<times> real. (fst (snd x), snd (snd (snd x)), fst (snd (snd x)))"
  let ?ews = "entities_with_scores entities_scores scores"
  let ?kept = "filter spec_kept (map (spec_row entities_scores) scores)"
  have d: "?ews = sorted_rev ?key ?kept"
    by (simp only: entities_with_scores_def score_row_spec keeps_spec)
  have 1: "mset ?ews = mset ?kept"
    unfolding d by (rule mset_sorted_rev)
  have "sorted_wrt (\<lambda>x y. ?key x \<ge> ?key y) ?ews"
    unfolding d by (rule sorted_rev_descending)
  then have 2: "sorted_wrt spec_rerank_before ?ews"
    by (rule sorted_wrt_mono_rel [rotated])
       (auto simp: spec_rerank_before_def less_eq_prod_def)
  have 3: "filter (\<lambda>x. fst (snd x) = s \<and> snd (snd (snd x)) = r \<and> fst (snd (snd x)) = p) ?ews =
           filter (\<lambda>x. fst (snd x) = s \<and> snd (snd (snd x)) = r \<and> fst (snd (snd x)) = p) ?kept"
    for s r p
  proof -
    have eq: "(\<lambda>x :: string \<times> real \<times> int \<times> real.
                 fst (snd x) = s \<and> snd (snd (snd x)) = r \<and> fst (snd (snd x)) = p) =
              (\<lambda>x. ?key x = (s, r, p))"
      by (auto simp: fun_eq_iff)
    show ?thesis
      unfolding eq d by (rule sorted_rev_stable)
  qed
  have 4: "spec_kept (spec_row entities_scores (e, score)) = (score > 0.005 \<and> take 1 e = ''Q'')"
    for e score
    using spec_round2_threshold [of score]
    by (cases e) (simp_all add: spec_kept_def spec_row_def)
  have 5: "\<bar>spec_round2 x - x\<bar> \<le> 1 / 200 \<and> (\<exists>n :: int. spec_round2 x = of_int n / 100)" for x
    using spec_round2_nearest [of x] spec_round2_hundredth [of x] by blast
  have 6: "el_entities_with_scores entities_scores scores =
     (if list_all (\<lambda>x. fst x \<in> fst ` set entities_scores) scores
      then Inr ?ews else Inl KeyError)"
    by (simp only: el_entities_with_scores_rows entities_with_scores_rows)
  from 1 2 3 4 5 6 show ?thesis by blast
qed

text \<open>
  Claim C6 as stated fails, because the code filters and sorts the rounded scores. Of three
  candidates with substring score 1.0, the one with rerank score 0.004 is dropped although
  0.004 is above 0.001, and the one with rerank score 0.121 and popularity 9 comes before
  the one with rerank score 0.124 and popularity 5, since both scores are rounded to 0.12.
\<close>

theorem entities_with_scores_counterexample:
  "map fst (claimed_rows [(''Q1'', 1, 5), (''Q2'', 1, 9), (''Q3'', 1, 7)]
              [(''Q1'', 0.124), (''Q2'', 0.121), (''Q3'', 0.004)]) = [''Q1'', ''Q2'', ''Q3''] \<and>
   entities_with_scores [(''Q1'', 1, 5), (''Q2'', 1, 9), (''Q3'', 1, 7)]
     [(''Q1'', 0.124), (''Q2'', 0.121), (''Q3'', 0.004)] =
     [(''Q2'', 1, 9, 0.12), (''Q1'', 1, 5, 0.12)]"
proof -
  have 1: "map fst (claimed_rows [(''Q1'', 1, 5), (''Q2'', 1, 9), (''Q3'', 1, 7)]
              [(''Q1'', 0.124), (''Q2'', 0.121), (''Q3'', 0.004)]) = [''Q1'', ''Q2'', ''Q3'']"
    by code_simp
  have 2: "entities_with_scores [(''Q1'', 1, 5), (''Q2'', 1, 9), (''Q3'', 1, 7)]
     [(''Q1'', 0.124), (''Q2'', 0.121), (''Q3'', 0.004)] =
     [(''Q2'', 1, 9, 0.12), (''Q1'', 1, 5, 0.12)]"
    by code_simp
  from 1 2 show ?thesis by blast
qed

subsection \<open>The chunker on a long sentence without commas\<close>

lemma foldl_r_raises:
  assumes "x \<in> set xs" and "\<And>b. \<exists>e. f b x = Inl e \<and> P e" and "\<And>b y e. f b y = Inl e \<Longrightarrow> P e"
  shows "\<exists>e. foldl_r f b xs = Inl e \<and> P e"
  using assms(1)
proof (induction xs arbitrary: b)
  case Nil
  then show ?case by simp
next
  case (Cons y ys)
  show ?case
  proof (cases "f b y")
    case (Inl e)
    with assms(3) show ?thesis by auto
  next
    case (Inr b')
    show ?thesis
    proof (cases "x = y")
      case True
      with assms(2) [of b] Inr show ?thesis by auto
    next
      case False
      with Cons.prems have "x \<in> set ys" by simp
      from Cons.IH [OF this, of b'] Inr show ?thesis by simp
    qed
  qed
qed

lemma chunk_sentence_raises:
  assumes "max_seq_len C \<le> tokens_len C sentence" and "0x2C \<notin> set sentence"
  shows "chunk_sentence C n st sentence =
           Inl (if max_chunk_len C = 0 then ZeroDivisionError else AttributeError)"
  using assms by (simp add: chunk_sentence_def Let_def)

lemma chunk_sentence_errors:
  "chunk_sentence C n st sentence = Inl e \<Longrightarrow>
     e = (if max_chunk_len C = 0 then ZeroDivisionError else AttributeError)"
  by (auto simp: chunk_sentence_def Let_def split: if_splits)

lemma chunk_doc_errors:
  assumes "chunk_doc C st nd = Inl e"
  shows "e = (if max_chunk_len C = 0 then ZeroDivisionError else AttributeError)"
proof -
  obtain n doc where nd: "nd = (n, doc)" by (cases nd)
  let ?st0 = "(rebind [] [] st)\<lparr>cur_text := [], cur_len := 0, start := 0\<rparr>"
  have *: "foldl_r (chunk_sentence C n) b xs = Inl e' \<Longrightarrow>
      e' = (if max_chunk_len C = 0 then ZeroDivisionError else AttributeError)" for b xs e'
    by (induction xs arbitrary: b) (auto split: sum.splits dest: chunk_sentence_errors)
  from assms have "foldl_r (chunk_sentence C n) ?st0 (doc_sentences C doc) = Inl e"
    by (auto simp: chunk_doc_def nd split: sum.splits)
  then show ?thesis by (rule *)
qed

lemma chunk_doc_raises:
  assumes "sentence \<in> set (doc_sentences C doc)"
    and "max_seq_len C \<le> tokens_len C sentence" and "0x2C \<notin> set sentence"
  shows "chunk_doc C st (n, doc) =
           Inl (if max_chunk_len C = 0 then ZeroDivisionError else AttributeError)"
proof -
  let ?E = "if max_chunk_len C = 0 then ZeroDivisionError else AttributeError"
  let ?st0 = "(rebind [] [] st)\<lparr>cur_text := [], cur_len := 0, start := 0\<rparr>"
  have "\<exists>e. foldl_r (chunk_sentence C n) ?st0 (doc_sentences C doc) = Inl e \<and> e = ?E"
    by (rule foldl_r_raises [OF assms(1)])
       (auto simp: chunk_sentence_raises [OF assms(2,3)] dest: chunk_sentence_errors)
  then show ?thesis by (auto simp: chunk_doc_def)
qed

text \<open>
  Claim C7 (the code departs from it). When some document of the batch has a sentence
  without a comma whose tokenized length is at least \<open>max_seq_len\<close>, the chunker returns no
  chunks at all: the call raises, \<^verbatim>\<open>AttributeError\<close> for the attribute \<^verbatim>\<open>max_chunk\<close> that
  does not exist (or \<^verbatim>\<open>ZeroDivisionError\<close> first when \<open>max_chunk_len\<close> is 0).
\<close>

theorem chunker_call_raises:
  assumes "doc \<in> set docs_batch" and "sentence \<in> set (doc_sentences C doc)"
    and "max_seq_len C \<le> tokens_len C sentence" and "0x2C \<notin> set sentence"
  shows "chunker_call C docs_batch =
           Inl (if max_chunk_len C = 0 then ZeroDivisionError else AttributeError)"
proof -
  let ?E = "if max_chunk_len C = 0 then ZeroDivisionError else AttributeError"
  from assms(1) obtain n where n: "n < length docs_batch" "docs_batch ! n = doc"
    by (auto simp: in_set_conv_nth)
  then have mem: "(n, doc) \<in> set (zip [0..<length docs_batch] docs_batch)"
    by (auto simp: in_set_zip intro!: exI [of _ n])
  have "\<exists>e. foldl_r (chunk_doc C) st0 (zip [0..<length docs_batch] docs_batch) = Inl e \<and> e = ?E"
    for st0
    by (rule foldl_r_raises [OF mem])
       (auto simp: chunk_doc_raises [OF assms(2,3,4)] dest: chunk_doc_errors)
  then show ?thesis by (auto simp: chunker_call_def)
qed

lemma join_words_Suc:
  "join [0x20] (replicate (Suc (Suc n)) [c]) = c # 0x20 # join [0x20] (replicate (Suc n) [c])"
  by simp

lemma join_words_Cons: "join [0x20] (replicate (Suc n) [c]) = c # tl (join [0x20] (replicate (Suc n) [c]))"
  by (cases n) simp_all

lemma set_join_words: "set (join [0x20] (replicate n [c])) \<subseteq> {0x20, c}"
proof (induction n rule: less_induct)
  case (less n)
  show ?case
  proof (cases n)
    case 0
    then show ?thesis by simp
  next
    case (Suc m)
    show ?thesis
    proof (cases m)
      case 0
      with Suc show ?thesis by simp
    next
      case (Suc k)
      have "set (join [0x20] (replicate (Suc k) [c])) \<subseteq> {0x20, c}"
        using less [of "Suc k"] \<open>n = Suc m\<close> Suc by simp
      with \<open>n = Suc m\<close> Suc show ?thesis by auto
    qed
  qed
qed

lemma collapse_ws_words:
  "\<not> is_space c \<Longrightarrow> \<not> is_space d \<Longrightarrow>
     collapse_ws (join [0x20] (replicate (Suc n) [c]) @ [d]) =
       join [0x20] (replicate (Suc n) [c]) @ [d]"
proof (induction n)
  case 0
  then show ?case by simp
next
  case (Suc n)
  have sp: "is_space 0x20" by (simp add: is_space_def)
  obtain r where r: "join [0x20] (replicate (Suc n) [c]) = c # r"
    using join_words_Cons [of n c] by blast
  have "collapse_ws (c # 0x20 # (c # r) @ [d]) = c # 0x20 # collapse_ws ((c # r) @ [d])"
    using Suc.prems(1) sp by simp
  then have "collapse_ws (join [0x20] (replicate (Suc (Suc n)) [c]) @ [d]) =
      c # 0x20 # collapse_ws (join [0x20] (replicate (Suc n) [c]) @ [d])"
    by (simp only: join_words_Suc r append_Cons)
  also have "\<dots> = join [0x20] (replicate (Suc (Suc n)) [c]) @ [d]"
    by (simp only: Suc.IH [OF Suc.prems] join_words_Suc append_Cons)
  finally show ?case .
qed

lemma count_words:
  "\<not> is_space c \<Longrightarrow>
     length (filter (\<lambda>x. \<not> is_space x) (join [0x20] (replicate (Suc n) [c]))) = Suc n"
proof (induction n)
  case 0
  then show ?case by simp
next
  case (Suc n)
  have sp: "is_space 0x20" by (simp add: is_space_def)
  from Suc sp show ?case unfolding join_words_Suc by simp
qed

lemma split_sep_absent: "c \<notin> set s \<Longrightarrow> split_sep [c] s = [s]"
  by (induction s) auto

lemma sanitize_ex_long_sentence: "sanitize ex_long_sentence = ex_long_sentence"
proof -
  have "char_at ex_long_sentence (int (length ex_long_sentence) - 1) = 0x2E"
    by (simp add: char_at_def ex_long_sentence_def nth_append)
  then have "sanitize ex_long_sentence = collapse_ws ex_long_sentence"
    by (simp add: sanitize_def sentence_end_def)
  also have "\<dots> = ex_long_sentence"
    unfolding ex_long_sentence_def using collapse_ws_words [of "0x430" "0x2E" 499]
    by (simp add: is_space_def)
  finally show ?thesis .
qed

lemma ex_long_sentence_chars: "set ex_long_sentence \<subseteq> {0x20, 0x430, 0x2E}"
  using set_join_words [of 500 "0x430"] by (auto simp: ex_long_sentence_def)

lemma ex_long_sentence_tokens: "tokens_len ex_chunker ex_long_sentence = 501"
  using count_words [of "0x430" 499]
  by (simp add: ex_chunker_def ex_long_sentence_def is_space_def)

lemma ex_long_sentence_sentences: "doc_sentences ex_chunker ex_long_sentence = [ex_long_sentence]"
proof -
  have "0x0A \<notin> set ex_long_sentence" using ex_long_sentence_chars by auto
  then have "split_sep [0x0A] ex_long_sentence = [ex_long_sentence]" by (rule split_sep_absent)
  moreover have "length (filter (\<lambda>c. \<not> is_space c) ex_long_sentence) = 501"
    using ex_long_sentence_tokens by (simp add: ex_chunker_def)
  then have "length ex_long_sentence > 1"
    using length_filter_le [of "\<lambda>c. \<not> is_space c" ex_long_sentence] by linarith
  ultimately show ?thesis
    by (simp add: doc_sentences_def sanitize_ex_long_sentence ex_chunker_def)
qed

lemma ex_long_sentence_no_comma: "0x2C \<notin> set ex_long_sentence"
  using ex_long_sentence_chars by auto

theorem chunker_call_raises_witness:
  "chunker_call ex_chunker [ex_long_sentence] = Inl AttributeError"
proof -
  have 1: "ex_long_sentence \<in> set [ex_long_sentence]" by simp
  have 2: "ex_long_sentence \<in> set (doc_sentences ex_chunker ex_long_sentence)"
    by (simp add: ex_long_sentence_sentences)
  have 3: "max_seq_len ex_chunker \<le> tokens_len ex_chunker ex_long_sentence"
    by (simp add: ex_long_sentence_tokens) (simp add: ex_chunker_def)
  from chunker_call_raises [OF 1 2 3 ex_long_sentence_no_comma]
  show ?thesis by (simp add: ex_chunker_def)
qed

subsection \<open>The top-level call\<close>

lemma map_r_Inr:
  "map_r f xs = Inr ys \<Longrightarrow> length ys = length xs \<and> (\<forall>i < length xs. f (xs ! i) = Inr (ys ! i))"
proof (induction xs arbitrary: ys)
  case Nil
  then show ?case by simp
next
  case (Cons x xs)
  from Cons.prems obtain y ys' where y: "f x = Inr y" and r: "map_r f xs = Inr ys'"
    and ys: "ys = y # ys'"
    by (auto split: sum.splits)
  from Cons.IH [OF r] y ys show ?case
    by (auto simp: nth_Cons split: nat.splits)
qed

lemma split_mention_fold:
  "foldl (split_mention L) s ms =
     s\<lparr>nf_entity_substr_list := nf_entity_substr_list s @ map fst (filter (\<lambda>m. nf (fst m)) ms),
       nf_tags_list := nf_tags_list s @ map (\<lambda>m. fst (snd m)) (filter (\<lambda>m. nf (fst m)) ms),
       nf_entity_offsets_list :=
         nf_entity_offsets_list s @ map (\<lambda>m. snd (snd m)) (filter (\<lambda>m. nf (fst m)) ms),
       nf_entity_ids_list :=
         nf_entity_ids_list s @ map (\<lambda>m. spec_sentinel_ids L) (filter (\<lambda>m. nf (fst m)) ms),
       nf_conf_list :=
         nf_conf_list s @ map (\<lambda>m. spec_sentinel_conf L) (filter (\<lambda>m. nf (fst m)) ms),
       fnd_entity_substr_list :=
         fnd_entity_substr_list s @ map fst (filter (\<lambda>m. \<not> nf (fst m)) ms),
       fnd_tags_list :=
         fnd_tags_list s @ map (\<lambda>m. fst (snd m)) (filter (\<lambda>m. \<not> nf (fst m)) ms),
       fnd_entity_offsets_list :=
         fnd_entity_offsets_list s @ map (\<lambda>m. snd (snd m)) (filter (\<lambda>m. \<not> nf (fst m)) ms)\<rparr>"
proof (induction ms arbitrary: s)
  case Nil
  show ?case by simp
next
  case (Cons m ms)
  obtain a b c where m: "m = (a, b, c)" by (cases m)
  show ?case
  proof (cases "nf a")
    case True
    then have "split_mention L s m =
        s\<lparr>nf_entity_substr_list := nf_entity_substr_list s @ [a],
          nf_tags_list := nf_tags_list s @ [b],
          nf_entity_offsets_list := nf_entity_offsets_list s @ [c],
          nf_entity_ids_list := nf_entity_ids_list s @ [spec_sentinel_ids L],
          nf_conf_list := nf_conf_list s @ [spec_sentinel_conf L]\<rparr>"
      by (simp add: m split_mention_def spec_sentinel_ids_def spec_sentinel_conf_def)
    with True show ?thesis
      by (simp only: foldl_Cons Cons.IH) (simp add: m)
  next
    case False
    then have "split_mention L s m =
        s\<lparr>fnd_entity_substr_list := fnd_entity_substr_list s @ [a],
          fnd_tags_list := fnd_tags_list s @ [b],
          fnd_entity_offsets_list := fnd_entity_offsets_list s @ [c]\<rparr>"
      by (simp add: m split_mention_def)
    with False show ?thesis
      by (simp only: foldl_Cons Cons.IH) (simp add: m)
  qed
qed

lemma split_mentions_spec:
  "split_mentions L d =
     \<lparr>nf_entity_substr_list = map fst (deny_listed d),
      nf_tags_list = map (\<lambda>m. fst (snd m)) (deny_listed d),
      nf_entity_offsets_list = map (\<lambda>m. snd (snd m)) (deny_listed d),
      nf_entity_ids_list = map (\<lambda>m. spec_sentinel_ids L) (deny_listed d),
      nf_conf_list = map (\<lambda>m. spec_sentinel_conf L) (deny_listed d),
      fnd_entity_substr_list = map fst (retrieved d),
      fnd_tags_list = map (\<lambda>m. fst (snd m)) (retrieved d),
      fnd_entity_offsets_list = map (\<lambda>m. snd (snd m)) (retrieved d)\<rparr>"
  by (cases d) (simp add: split_mentions_def split_mention_fold deny_listed_def retrieved_def
      mentions_of_def)

lemma call_structure:
  assumes "call L esb eob tb sob sb = Inr out"
  defines "docs \<equiv> zip esb (zip tb eob)"
  shows "\<exists>fnd_ids fnd_conf.
           link_entities L (map (\<lambda>d. map fst (retrieved d)) docs)
             (map (\<lambda>d. map (\<lambda>m. fst (snd m)) (retrieved d)) docs)
             (map (\<lambda>d. map (\<lambda>m. snd (snd m)) (retrieved d)) docs) sb sob = Inr (fnd_ids, fnd_conf) \<and>
           length docs \<le> length fnd_ids \<and> length docs \<le> length fnd_conf \<and>
           out_entity_substr_batch out =
             map (\<lambda>d. map fst (deny_listed d) @ map fst (retrieved d)) docs \<and>
           out_tags_batch out =
             map (\<lambda>d. map (\<lambda>m. fst (snd m)) (deny_listed d) @ map (\<lambda>m. fst (snd m)) (retrieved d)) docs \<and>
           out_entity_offsets_batch out =
             map (\<lambda>d. map (\<lambda>m. snd (snd m)) (deny_listed d) @ map (\<lambda>m. snd (snd m)) (retrieved d)) docs \<and>
           out_entity_ids_batch out =
             map (\<lambda>i. map (\<lambda>m. spec_sentinel_ids L) (deny_listed (docs ! i)) @ fnd_ids ! i)
               [0..<length docs] \<and>
           out_conf_batch out =
             (if return_confidences L
              then Some (map (\<lambda>i. map (\<lambda>m. spec_sentinel_conf L) (deny_listed (docs ! i)) @ fnd_conf ! i)
                           [0..<length docs])
              else None)"
proof -
  let ?splits = "map (split_mentions L) docs"
  have fs: "map fnd_entity_substr_list ?splits = map (\<lambda>d. map fst (retrieved d)) docs"
    and ft: "map fnd_tags_list ?splits = map (\<lambda>d. map (\<lambda>m. fst (snd m)) (retrieved d)) docs"
    and fo: "map fnd_entity_offsets_list ?splits = map (\<lambda>d. map (\<lambda>m. snd (snd m)) (retrieved d)) docs"
    by (simp_all add: split_mentions_spec)
  from assms(1) obtain fnd_ids fnd_conf merged labels_batch where
    le: "link_entities L (map fnd_entity_substr_list ?splits) (map fnd_tags_list ?splits)
           (map fnd_entity_offsets_list ?splits) sb sob = Inr (fnd_ids, fnd_conf)"
    and me: "map_r (merge_doc fnd_ids fnd_conf) (zip [0..<length ?splits] ?splits) = Inr merged"
    and out: "out = \<lparr>out_entity_substr_batch = map fst merged,
                      out_conf_batch = (if return_confidences L
                                        then Some (map (\<lambda>m. snd (snd (snd (snd m)))) merged)
                                        else None),
                      out_entity_offsets_batch = map (\<lambda>m. fst (snd (snd m))) merged,
                      out_entity_ids_batch = map (\<lambda>m. fst (snd (snd (snd m)))) merged,
                      out_tags_batch = map (\<lambda>m. fst (snd m)) merged,
                      out_entity_labels_batch = labels_batch\<rparr>"
    unfolding call_def docs_def Let_def
    by (auto split: sum.splits prod.splits)
  from map_r_Inr [OF me] have len: "length merged = length docs"
    and each: "\<And>i. i < length docs \<Longrightarrow>
        merge_doc fnd_ids fnd_conf (i, split_mentions L (docs ! i)) = Inr (merged ! i)"
    by auto
  have in_range: "i < length fnd_ids \<and> i < length fnd_conf" if "i < length docs" for i
    using each [OF that] by (auto simp: merge_doc_def nth_r_def split: if_splits)
  have val: "merged ! i =
      (map fst (deny_listed (docs ! i)) @ map fst (retrieved (docs ! i)),
       map (\<lambda>m. fst (snd m)) (deny_listed (docs ! i)) @ map (\<lambda>m. fst (snd m)) (retrieved (docs ! i)),
       map (\<lambda>m. snd (snd m)) (deny_listed (docs ! i)) @ map (\<lambda>m. snd (snd m)) (retrieved (docs ! i)),
       map (\<lambda>m. spec_sentinel_ids L) (deny_listed (docs ! i)) @ fnd_ids ! i,
       map (\<lambda>m. spec_sentinel_conf L) (deny_listed (docs ! i)) @ fnd_conf ! i)"
    if "i < length docs" for i
    using each [OF that] in_range [OF that]
    by (simp add: merge_doc_def nth_r_def split_mentions_spec)
  have lens: "length docs \<le> length fnd_ids" "length docs \<le> length fnd_conf"
    using in_range by (cases "length docs"; fastforce)+
  have m1: "map fst merged = map (\<lambda>d. map fst (deny_listed d) @ map fst (retrieved d)) docs"
    by (rule nth_equalityI) (simp_all add: len val)
  have m2: "map (\<lambda>m. fst (snd m)) merged =
      map (\<lambda>d. map (\<lambda>m. fst (snd m)) (deny_listed d) @ map (\<lambda>m. fst (snd m)) (retrieved d)) docs"
    by (rule nth_equalityI) (simp_all add: len val)
  have m3: "map (\<lambda>m. fst (snd (snd m))) merged =
      map (\<lambda>d. map (\<lambda>m. snd (snd m)) (deny_listed d) @ map (\<lambda>m. snd (snd m)) (retrieved d)) docs"
    by (rule nth_equalityI) (simp_all add: len val)
  have m4: "map (\<lambda>m. fst (snd (snd (snd m)))) merged =
      map (\<lambda>i. map (\<lambda>m. spec_sentinel_ids L) (deny_listed (docs ! i)) @ fnd_ids ! i) [0..<length docs]"
    by (rule nth_equalityI) (simp_all add: len val)
  have m5: "map (\<lambda>m. snd (snd (snd (snd m)))) merged =
      map (\<lambda>i. map (\<lambda>m. spec_sentinel_conf L) (deny_listed (docs ! i)) @ fnd_conf ! i) [0..<length docs]"
    by (rule nth_equalityI) (simp_all add: len val)
  from le lens show ?thesis
    unfolding fs ft fo out by (simp add: m1 m2 m3 m4 m5)
qed

lemma ex_call:
  "call ex_linker [[ex_moskva, ex_ooo_romashka]] [[(0, 6), (9, 20)]] [[''LOC'', ''ORG'']]
     [[(0, 20)]] [[ex_sentence]] = Inr ex_out"
  by code_simp

text \<open>
  The results are lists (\<open>num_entities_to_return\<close> is not 1): whenever the call returns,
  each mention of a document that contains a deny-listed token is returned in front of the
  others, in input order, with the list holding the sentinel as its result and the
  confidence (0.0, 0, 0.0); and \<open>link_entities\<close>, which does the retrieval and the
  reranking, was run on the other mentions only. No table of the linker occurs in what is
  returned for these mentions. (With a deny-listed mention in the batch and
  \<open>num_entities_to_return = 1\<close> the call does not return: see below.)
\<close>

lemma call_lists_deny_listed:
  assumes "call L esb eob tb sob sb = Inr out"
  shows "\<exists>fnd_ids fnd_conf.
           link_entities L (map (\<lambda>d. map fst (retrieved d)) (zip esb (zip tb eob)))
             (map (\<lambda>d. map (\<lambda>m. fst (snd m)) (retrieved d)) (zip esb (zip tb eob)))
             (map (\<lambda>d. map (\<lambda>m. snd (snd m)) (retrieved d)) (zip esb (zip tb eob))) sb sob =
             Inr (fnd_ids, fnd_conf) \<and>
           length (out_entity_ids_batch out) = length (zip esb (zip tb eob)) \<and>
           (\<forall>i < length (zip esb (zip tb eob)).
              take (length (deny_listed (zip esb (zip tb eob) ! i))) (out_entity_substr_batch out ! i) =
                map fst (deny_listed (zip esb (zip tb eob) ! i)) \<and>
              take (length (deny_listed (zip esb (zip tb eob) ! i))) (out_entity_ids_batch out ! i) =
                replicate (length (deny_listed (zip esb (zip tb eob) ! i))) (spec_sentinel_ids L) \<and>
              (return_confidences L \<longrightarrow>
                 take (length (deny_listed (zip esb (zip tb eob) ! i)))
                   (the (out_conf_batch out) ! i) =
                 replicate (length (deny_listed (zip esb (zip tb eob) ! i))) (spec_sentinel_conf L)))"
proof -
  let ?docs = "zip esb (zip tb eob)"
  from call_structure [OF assms] obtain fnd_ids fnd_conf where
    le: "link_entities L (map (\<lambda>d. map fst (retrieved d)) ?docs)
             (map (\<lambda>d. map (\<lambda>m. fst (snd m)) (retrieved d)) ?docs)
             (map (\<lambda>d. map (\<lambda>m. snd (snd m)) (retrieved d)) ?docs) sb sob = Inr (fnd_ids, fnd_conf)"
    and s: "out_entity_substr_batch out =
             map (\<lambda>d. map fst (deny_listed d) @ map fst (retrieved d)) ?docs"
    and i: "out_entity_ids_batch out =
             map (\<lambda>i. map (\<lambda>m. spec_sentinel_ids L) (deny_listed (?docs ! i)) @ fnd_ids ! i)
               [0..<length ?docs]"
    and c: "out_conf_batch out =
             (if return_confidences L
              then Some (map (\<lambda>i. map (\<lambda>m. spec_sentinel_conf L) (deny_listed (?docs ! i)) @ fnd_conf ! i)
                           [0..<length ?docs])
              else None)"
    by blast
  have "take (length (deny_listed (?docs ! i))) (out_entity_substr_batch out ! i) =
          map fst (deny_listed (?docs ! i)) \<and>
        take (length (deny_listed (?docs ! i))) (out_entity_ids_batch out ! i) =
          replicate (length (deny_listed (?docs ! i))) (spec_sentinel_ids L) \<and>
        (return_confidences L \<longrightarrow>
           take (length (deny_listed (?docs ! i))) (the (out_conf_batch out) ! i) =
           replicate (length (deny_listed (?docs ! i))) (spec_sentinel_conf L))"
    if "i < length ?docs" for i
    using that unfolding s i c by (simp add: map_replicate_const)
  with le i show ?thesis by auto
qed

lemma ex_call_deny_listed:
  "call ex_linker [[ex_moskva, ex_ooo_romashka]] [[(0, 6), (9, 20)]] [[''LOC'', ''ORG'']]
     [[(0, 20)]] [[ex_sentence]] = Inr ex_out \<and>
   deny_listed ([ex_moskva, ex_ooo_romashka], [''LOC'', ''ORG''], [(0, 6), (9, 20)]) =
     [(ex_ooo_romashka, ''ORG'', (9, 20))] \<and>
   take 1 (out_entity_substr_batch ex_out ! 0) = [ex_ooo_romashka] \<and>
   take 1 (out_entity_ids_batch ex_out ! 0) = [Many [not_found_str]] \<and>
   take 1 (the (out_conf_batch ex_out) ! 0) = [CMany [Conf 0 0 0]]"
proof -
  have d: "deny_listed ([ex_moskva, ex_ooo_romashka], [''LOC'', ''ORG''], [(0, 6), (9, 20)]) =
     [(ex_ooo_romashka, ''ORG'', (9, 20))]"
    by code_simp
  have r: "return_confidences ex_linker" "num_entities_to_return ex_linker = 10"
    by (simp_all add: ex_linker_def)
  let ?docs = "zip [[ex_moskva, ex_ooo_romashka]] (zip [[''LOC'', ''ORG'']] [[(0 :: int, 6 :: int), (9, 20)]])"
  have docs: "?docs = [([ex_moskva, ex_ooo_romashka], [''LOC'', ''ORG''], [(0, 6), (9, 20)])]"
    by simp
  from call_lists_deny_listed [OF ex_call] have
    "\<forall>i < length ?docs.
        take (length (deny_listed (?docs ! i))) (out_entity_substr_batch ex_out ! i) =
          map fst (deny_listed (?docs ! i)) \<and>
        take (length (deny_listed (?docs ! i))) (out_entity_ids_batch ex_out ! i) =
          replicate (length (deny_listed (?docs ! i))) (spec_sentinel_ids ex_linker) \<and>
        (return_confidences ex_linker \<longrightarrow>
           take (length (deny_listed (?docs ! i))) (the (out_conf_batch ex_out) ! i) =
           replicate (length (deny_listed (?docs ! i))) (spec_sentinel_conf ex_linker))"
    by blast
  then have "take 1 (out_entity_substr_batch ex_out ! 0) = [ex_ooo_romashka] \<and>
     take 1 (out_entity_ids_batch ex_out ! 0) = [Many [not_found_str]] \<and>
     take 1 (the (out_conf_batch ex_out) ! 0) = [CMany [Conf 0 0 0]]"
    unfolding docs by (simp add: d r spec_sentinel_ids_def spec_sentinel_conf_def)
  with ex_call d show ?thesis by blast
qed

subsection \<open>A deny-listed mention in single-answer mode\<close>

lemma find_labels_raises:
  assumes "ms \<in> set entity_ids_batch" and "Single entity_id \<in> set ms"
  shows "find_labels L entity_ids_batch = Inl NameError"
proof -
  have "map_r (find_labels_one L) ms = Inl NameError"
    by (rule map_r_raises [OF assms(2)]) (auto dest: find_labels_one_error)
  then show ?thesis
    unfolding find_labels_def
    by (intro map_r_raises [OF assms(1)]) (auto dest: find_labels_list_error)
qed

lemma merge_doc_error: "merge_doc ids confs x = Inl e \<Longrightarrow> e = IndexError"
  by (auto simp: merge_doc_def nth_r_def split: prod.splits sum.splits if_splits)

lemma map_r_total:
  "(\<And>x. x \<in> set xs \<Longrightarrow> f x = Inr (g x)) \<Longrightarrow> map_r f xs = Inr (map g xs)"
  by (induction xs) auto

lemma merge_docs:
  "map_r (merge_doc fnd_ids fnd_conf) (zip [0..<length splits] splits) =
     (if length splits \<le> length fnd_ids \<and> length splits \<le> length fnd_conf
      then Inr (map (\<lambda>(i, s). (nf_entity_substr_list s @ fnd_entity_substr_list s,
                         nf_tags_list s @ fnd_tags_list s,
                         nf_entity_offsets_list s @ fnd_entity_offsets_list s,
                         nf_entity_ids_list s @ fnd_ids ! i,
                         nf_conf_list s @ fnd_conf ! i)) (zip [0..<length splits] splits))
      else Inl IndexError)"
proof (cases "length splits \<le> length fnd_ids \<and> length splits \<le> length fnd_conf")
  case True
  have "map_r (merge_doc fnd_ids fnd_conf) (zip [0..<length splits] splits) =
      Inr (map (\<lambda>(i, s). (nf_entity_substr_list s @ fnd_entity_substr_list s,
                         nf_tags_list s @ fnd_tags_list s,
                         nf_entity_offsets_list s @ fnd_entity_offsets_list s,
                         nf_entity_ids_list s @ fnd_ids ! i,
                         nf_conf_list s @ fnd_conf ! i)) (zip [0..<length splits] splits))"
  proof (rule map_r_total)
    fix x assume "x \<in> set (zip [0..<length splits] splits)"
    then have "fst x < length splits" by (auto simp: in_set_zip)
    with True show "merge_doc fnd_ids fnd_conf x =
        Inr ((\<lambda>(i, s). (nf_entity_substr_list s @ fnd_entity_substr_list s,
                         nf_tags_list s @ fnd_tags_list s,
                         nf_entity_offsets_list s @ fnd_entity_offsets_list s,
                         nf_entity_ids_list s @ fnd_ids ! i,
                         nf_conf_list s @ fnd_conf ! i)) x)"
      by (cases x) (simp add: merge_doc_def nth_r_def)
  qed
  with True show ?thesis by simp
next
  case False
  define i where "i = min (length fnd_ids) (length fnd_conf)"
  from False have i: "i < length splits" "\<not> (i < length fnd_ids \<and> i < length fnd_conf)"
    by (auto simp: i_def)
  then have mem: "(i, splits ! i) \<in> set (zip [0..<length splits] splits)"
    by (auto simp: in_set_zip intro!: exI [of _ i])
  have "merge_doc fnd_ids fnd_conf (i, splits ! i) = Inl IndexError"
    using i(2) by (auto simp: merge_doc_def nth_r_def)
  then have "map_r (merge_doc fnd_ids fnd_conf) (zip [0..<length splits] splits) = Inl IndexError"
    by (rule map_r_raises [OF mem]) (rule merge_doc_error)
  with False show ?thesis by simp
qed

lemma split_mentions_sentinels:
  "nf_entity_ids_list (split_mentions L d) = map (\<lambda>m. spec_sentinel_ids L) (deny_listed d)"
  by (simp add: split_mentions_spec)

lemma call_single_docs:
  assumes "num_entities_to_return L = 1" and "d \<in> set docs" and "deny_listed d \<noteq> []"
  shows "(case map_r (merge_doc fnd_ids fnd_conf)
                 (zip [0..<length (map (split_mentions L) docs)] (map (split_mentions L) docs)) of
            Inl e \<Rightarrow> Inl e
          | Inr merged \<Rightarrow>
              (case find_labels L (map (\<lambda>m. fst (snd (snd (snd m)))) merged) of
                 Inl e \<Rightarrow> Inl e
               | Inr labels_batch \<Rightarrow> Inr (mk merged labels_batch))) =
         (if length docs \<le> length fnd_ids \<and> length docs \<le> length fnd_conf
          then Inl NameError else Inl IndexError)"
proof -
  let ?splits = "map (split_mentions L) docs"
  let ?merged = "map (\<lambda>(i, s). (nf_entity_substr_list s @ fnd_entity_substr_list s,
                         nf_tags_list s @ fnd_tags_list s,
                         nf_entity_offsets_list s @ fnd_entity_offsets_list s,
                         nf_entity_ids_list s @ fnd_ids ! i,
                         nf_conf_list s @ fnd_conf ! i)) (zip [0..<length ?splits] ?splits)"
  from assms(2) obtain i where i: "i < length docs" "docs ! i = d"
    by (auto simp: in_set_conv_nth)
  from assms(3) obtain m ms where dl: "deny_listed d = m # ms" by (cases "deny_listed d") auto
  have raises: "find_labels L (map (\<lambda>m. fst (snd (snd (snd m)))) ?merged) = Inl NameError"
  proof (rule find_labels_raises)
    show "nf_entity_ids_list (split_mentions L d) @ fnd_ids ! i \<in>
      set (map (\<lambda>m. fst (snd (snd (snd m)))) ?merged)"
      using i by (force simp: in_set_zip intro!: image_eqI [where x = "(i, split_mentions L d)"])
    show "Single not_found_str \<in> set (nf_entity_ids_list (split_mentions L d) @ fnd_ids ! i)"
      by (simp add: split_mentions_sentinels dl spec_sentinel_ids_def assms(1))
  qed
  show ?thesis
  proof (cases "length docs \<le> length fnd_ids \<and> length docs \<le> length fnd_conf")
    case True
    then have "map_r (merge_doc fnd_ids fnd_conf) (zip [0..<length ?splits] ?splits) = Inr ?merged"
      using merge_docs [of fnd_ids fnd_conf ?splits] by simp
    with raises True show ?thesis by simp
  next
    case False
    then have "map_r (merge_doc fnd_ids fnd_conf) (zip [0..<length ?splits] ?splits) = Inl IndexError"
      using merge_docs [of fnd_ids fnd_conf ?splits] by simp
    with False show ?thesis by simp
  qed
qed

text \<open>
  Claim C2 (the code departs from it). In single-answer mode (\<open>num_entities_to_return = 1\<close>)
  a batch with a mention that contains a deny-listed token is never answered: the mention
  is set aside with the sentinel and the confidence (0.0, 0, 0.0) and kept away from
  \<open>link_entities\<close>, but then \<^verbatim>\<open>find_labels\<close> reads the unbound name \<^verbatim>\<open>entity_id\<close> on the
  sentinel and the call raises \<^verbatim>\<open>NameError\<close> (or an earlier error of \<open>link_entities\<close> on the
  other mentions, or \<^verbatim>\<open>IndexError\<close> when it answered for fewer documents).
\<close>

theorem call_single_raises:
  assumes "num_entities_to_return L = 1"
    and "d \<in> set (zip esb (zip tb eob))" and "deny_listed d \<noteq> []"
  shows "call L esb eob tb sob sb =
           (case link_entities L (map (\<lambda>d. map fst (retrieved d)) (zip esb (zip tb eob)))
                   (map (\<lambda>d. map (\<lambda>m. fst (snd m)) (retrieved d)) (zip esb (zip tb eob)))
                   (map (\<lambda>d. map (\<lambda>m. snd (snd m)) (retrieved d)) (zip esb (zip tb eob))) sb sob of
              Inl e \<Rightarrow> Inl e
            | Inr (fnd_ids, fnd_conf) \<Rightarrow>
                if length (zip esb (zip tb eob)) \<le> length fnd_ids \<and>
                   length (zip esb (zip tb eob)) \<le> length fnd_conf
                then Inl NameError else Inl IndexError)"
proof -
  define docs where "docs = zip esb (zip tb eob)"
  let ?splits = "map (split_mentions L) docs"
  have fs: "map fnd_entity_substr_list ?splits = map (\<lambda>d. map fst (retrieved d)) docs"
    and ft: "map fnd_tags_list ?splits = map (\<lambda>d. map (\<lambda>m. fst (snd m)) (retrieved d)) docs"
    and fo: "map fnd_entity_offsets_list ?splits = map (\<lambda>d. map (\<lambda>m. snd (snd m)) (retrieved d)) docs"
    by (simp_all add: split_mentions_spec)
  from assms(2) have d: "d \<in> set docs" by (simp only: docs_def)
  show ?thesis
    unfolding call_def Let_def docs_def [symmetric] fs ft fo
    by (simp only: call_single_docs [OF assms(1) d assms(3)] split: sum.splits prod.splits)
qed

lemma ex_single_call:
  "call ex_linker_single [[ex_ooo_romashka]] [[(0, 11)]] [[''ORG'']] [[(0, 11)]]
     [[ex_ooo_romashka]] = Inl NameError"
  by code_simp

lemma ex_single_link:
  "link_entities ex_linker_single [[]] [[]] [[]] [[ex_ooo_romashka]] [[(0, 11)]] = Inr ([[]], [[]])"
  by code_simp

theorem call_single_raises_witness:
  "num_entities_to_return ex_linker_single = 1 \<and>
   deny_listed ([ex_ooo_romashka], [''ORG''], [(0, 11)]) = [(ex_ooo_romashka, ''ORG'', (0, 11))] \<and>
   call ex_linker_single [[ex_ooo_romashka]] [[(0, 11)]] [[''ORG'']] [[(0, 11)]]
     [[ex_ooo_romashka]] = Inl NameError"
proof -
  have n: "num_entities_to_return ex_linker_single = 1"
    by (simp add: ex_linker_single_def)
  have d: "deny_listed ([ex_ooo_romashka], [''ORG''], [(0, 11)]) = [(ex_ooo_romashka, ''ORG'', (0, 11))]"
    by code_simp
  have r: "retrieved ([ex_ooo_romashka], [''ORG''], [(0, 11)]) = []"
    by code_simp
  have m: "([ex_ooo_romashka], [''ORG''], [(0 :: int, 11 :: int)]) \<in>
      set (zip [[ex_ooo_romashka]] (zip [[''ORG'']] [[(0, 11)]]))"
    by simp
  have ne: "deny_listed ([ex_ooo_romashka], [''ORG''], [(0, 11)]) \<noteq> []"
    by (simp add: d)
  from call_single_raises [OF n m ne, of "[[(0, 11)]]" "[[ex_ooo_romashka]]"]
  have "call ex_linker_single [[ex_ooo_romashka]] [[(0, 11)]] [[''ORG'']] [[(0, 11)]]
     [[ex_ooo_romashka]] = Inl NameError"
    by (simp add: r ex_single_link)
  with n d show ?thesis by blast
qed

subsection \<open>The words that link_entities collects\<close>

lemma dw_app_Nil: "dw_app L dw [] = dw"
  by (simp add: dw_app_def)

lemma dw_app_append: "dw_app L (dw_app L dw es1) es2 = dw_app L dw (es1 @ es2)"
  by (simp add: dw_app_def)

lemma nf_part_append: "nf_part L d (es1 @ es2) = nf_part L d es1 @ nf_part L d es2"
  by (simp add: nf_part_def)

lemma add_form_spec:
  "add_form L doc_num i tag wc (nfs, dw) w =
     (nfs @ nf_part L doc_num [(i, wc, tag, w)], dw_app L dw [(i, wc, tag, w)])"
  by (simp add: add_form_def dw_app_def nf_part_def indexed_def entry_form_def)

lemma add_word_spec:
  "add_word L doc_num i tag (nfs, wc, dw) word =
     (nfs @ nf_part L doc_num (map (\<lambda>w. (i, wc, tag, w)) (spec_forms L word)), Suc wc,
      dw_app L dw (map (\<lambda>w. (i, wc, tag, w)) (spec_forms L word)))"
  by (simp add: add_word_def add_form_spec spec_forms_def dw_app_append nf_part_append [symmetric])

lemma add_mention_spec:
  "foldl (add_word L doc_num i tag) (nfs, wc, dw) ws =
     (nfs @ nf_part L doc_num (spec_mention_entries L i tag wc ws), wc + length ws,
      dw_app L dw (spec_mention_entries L i tag wc ws))"
proof (induction ws arbitrary: nfs wc dw)
  case Nil
  show ?case by (simp add: dw_app_Nil nf_part_def)
next
  case (Cons word ws)
  show ?case
    by (simp add: add_word_spec Cons.IH dw_app_append nf_part_append)
qed

lemma collect_mentions_spec:
  "foldl (add_mention L doc_num) (nfs, wc, dw) (zip [i..<i + length ms] ms) =
     (nfs @ nf_part L doc_num (spec_doc_entries L i wc ms), wc + doc_word_total ms,
      dw_app L dw (spec_doc_entries L i wc ms))"
proof (induction ms arbitrary: nfs wc dw i)
  case Nil
  show ?case by (simp add: dw_app_Nil nf_part_def doc_word_total_def)
next
  case (Cons m ms)
  obtain ws tag where m: "m = (ws, tag)" by (cases m)
  have z: "zip [i..<i + length (m # ms)] (m # ms) = (i, m) # zip [Suc i..<Suc i + length ms] ms"
    by (simp add: upt_rec)
  have "foldl (add_mention L doc_num) (nfs, wc, dw) (zip [i..<i + length (m # ms)] (m # ms)) =
      foldl (add_mention L doc_num) (add_mention L doc_num (nfs, wc, dw) (i, m))
        (zip [Suc i..<Suc i + length ms] ms)"
    unfolding z by simp
  also have "add_mention L doc_num (nfs, wc, dw) (i, m) =
      (nfs @ nf_part L doc_num (spec_mention_entries L i tag wc ws), wc + length ws,
       dw_app L dw (spec_mention_entries L i tag wc ws))"
    by (simp add: m add_mention_def add_mention_spec)
  also note Cons.IH
  finally show ?case
    by (simp add: m dw_app_append nf_part_append doc_word_total_def)
qed

lemma zip_upt_shorter: "length zs \<le> n \<Longrightarrow> zip [0..<n] zs = zip [0..<length zs] zs"
  by (rule nth_equalityI) simp_all

lemma zip_upt_zip:
  "zip [0..<length xs] (zip xs ys) = zip [0..<0 + length (zip xs ys)] (zip xs ys)"
  using zip_upt_shorter [of "zip xs ys" "length xs"] by simp

lemma collect_doc_spec:
  "collect_doc L (nfs, wc, dws) (doc_num, entity_substr_list, tags_list) =
     (nfs @ nf_part L doc_num (spec_doc_entries L 0 wc (zip entity_substr_list tags_list)),
      wc + doc_word_total (zip entity_substr_list tags_list),
      dws @ [dw_app L dw_empty (spec_doc_entries L 0 wc (zip entity_substr_list tags_list))])"
  unfolding collect_doc_def
  by (simp only: prod.case zip_upt_zip dw_empty_def [symmetric] collect_mentions_spec)

subsection \<open>The words of a batch\<close>

lemma zip_upt_Cons: "zip [k..<k + length (d # ds)] (d # ds) = (k, d) # zip [Suc k..<Suc k + length ds] ds"
  by (simp add: upt_rec)

lemma collect_docs_spec:
  "foldl (collect_doc L) (nfs, wc, dws) (zip [k..<k + length ds] ds) =
     (nfs @ concat (map (\<lambda>x. nf_part L (fst x) (snd x))
                     (zip [k..<k + length ds] (spec_batch_entries L wc ds))),
      wc + sum_list (map (\<lambda>d. doc_word_total (zip (fst d) (snd d))) ds),
      dws @ map (dw_app L dw_empty) (spec_batch_entries L wc ds))"
proof (induction ds arbitrary: nfs wc dws k)
  case Nil
  show ?case by simp
next
  case (Cons d ds)
  obtain ss ts where d: "d = (ss, ts)" by (cases d)
  have l: "length (spec_batch_entries L w ds) = length ds" for w
    by (induction ds arbitrary: w) auto
  have "foldl (collect_doc L) (nfs, wc, dws) (zip [k..<k + length (d # ds)] (d # ds)) =
      foldl (collect_doc L) (collect_doc L (nfs, wc, dws) (k, ss, ts))
        (zip [Suc k..<Suc k + length ds] ds)"
    unfolding zip_upt_Cons by (simp add: d)
  also note collect_doc_spec
  also note Cons.IH
  finally show ?case
    using zip_upt_Cons [of k "spec_doc_entries L 0 wc (zip ss ts)"
        "spec_batch_entries L (wc + doc_word_total (zip ss ts)) ds"]
    by (simp add: d l)
qed

lemma length_spec_batch_entries: "length (spec_batch_entries L wc ds) = length ds"
  by (induction ds arbitrary: wc) auto

lemma spec_batch_entries_nth:
  "k < length ds \<Longrightarrow>
     \<exists>wc'. spec_batch_entries L wc ds ! k = spec_doc_entries L 0 wc' (zip (fst (ds ! k)) (snd (ds ! k)))"
proof (induction ds arbitrary: wc k)
  case Nil
  then show ?case by simp
next
  case (Cons d ds)
  then show ?case by (cases k) auto
qed

lemma collect_words_spec:
  "collect_words L esb tb =
     (concat (map (\<lambda>x. nf_part L (fst x) (snd x))
                (zip [0..<length (zip esb tb)] (spec_batch_entries L 0 (zip esb tb)))),
      sum_list (map (\<lambda>d. doc_word_total (zip (fst d) (snd d))) (zip esb tb)),
      map (dw_app L dw_empty) (spec_batch_entries L 0 (zip esb tb)))"
proof -
  have "zip [0..<length esb] (zip esb tb) = zip [0..<0 + length (zip esb tb)] (zip esb tb)"
    by (rule zip_upt_zip)
  then show ?thesis
    unfolding collect_words_def by (simp only: collect_docs_spec) simp
qed

text \<open>Properties of the entries of a document.\<close>

lemma spec_mention_entries_mem:
  "e \<in> set (spec_mention_entries L i tag wc ws) \<Longrightarrow>
     fst e = i \<and> wc \<le> fst (snd e) \<and> fst (snd e) < wc + length ws \<and> fst (snd (snd e)) = tag"
proof (induction ws arbitrary: wc)
  case Nil
  then show ?case by simp
next
  case (Cons word ws)
  from Cons.prems consider
    (a) "e \<in> set (map (\<lambda>w. (i, wc, tag, w)) (spec_forms L word))"
    | (b) "e \<in> set (spec_mention_entries L i tag (Suc wc) ws)"
    by auto
  then show ?case
  proof cases
    case a
    then show ?thesis by auto
  next
    case b
    from Cons.IH [OF b] show ?thesis by simp
  qed
qed

lemma spec_doc_entries_mem:
  "e \<in> set (spec_doc_entries L i wc ms) \<Longrightarrow>
     i \<le> fst e \<and> fst e < i + length ms \<and> wc \<le> fst (snd e) \<and>
     fst (snd e) < wc + doc_word_total ms \<and> fst (snd (snd e)) = snd (ms ! (fst e - i))"
proof (induction ms arbitrary: i wc)
  case Nil
  then show ?case by simp
next
  case (Cons m ms)
  from Cons.prems consider
    (a) "e \<in> set (spec_mention_entries L i (snd m) wc (fst m))"
    | (b) "e \<in> set (spec_doc_entries L (Suc i) (wc + length (fst m)) ms)"
    by auto
  then show ?case
  proof cases
    case a
    from spec_mention_entries_mem [OF a] show ?thesis
      by (auto simp: doc_word_total_def)
  next
    case b
    from Cons.IH [OF b] have ih: "Suc i \<le> fst e" "fst e < Suc i + length ms"
      "wc + length (fst m) \<le> fst (snd e)"
      "fst (snd e) < wc + length (fst m) + doc_word_total ms"
      "fst (snd (snd e)) = snd (ms ! (fst e - Suc i))"
      by simp_all
    from ih(1) have "fst e - i = Suc (fst e - Suc i)" by arith
    with ih show ?thesis
      by (simp add: doc_word_total_def)
  qed
qed

lemma spec_doc_entries_count_index:
  assumes "e1 \<in> set (spec_doc_entries L i wc ms)" and "e2 \<in> set (spec_doc_entries L i wc ms)"
    and "fst (snd e1) = fst (snd e2)"
  shows "fst e1 = fst e2"
  using assms
proof (induction ms arbitrary: i wc)
  case Nil
  then show ?case by simp
next
  case (Cons m ms)
  let ?A = "set (spec_mention_entries L i (snd m) wc (fst m))"
  let ?B = "set (spec_doc_entries L (Suc i) (wc + length (fst m)) ms)"
  have A: "x \<in> ?A \<Longrightarrow> fst x = i \<and> fst (snd x) < wc + length (fst m)" for x
    using spec_mention_entries_mem [of x L i "snd m" wc "fst m"] by simp
  have B: "x \<in> ?B \<Longrightarrow> wc + length (fst m) \<le> fst (snd x)" for x
    using spec_doc_entries_mem [of x L "Suc i" "wc + length (fst m)" ms] by simp
  from Cons.prems have "e1 \<in> ?A \<union> ?B" "e2 \<in> ?A \<union> ?B" by auto
  then consider "e1 \<in> ?A" "e2 \<in> ?A" | "e1 \<in> ?B" "e2 \<in> ?B"
    | "e1 \<in> ?A" "e2 \<in> ?B" | "e1 \<in> ?B" "e2 \<in> ?A" by blast
  then show ?case
  proof cases
    case 1
    then show ?thesis using A by simp
  next
    case 2
    then show ?thesis using Cons.IH Cons.prems(3) by blast
  next
    case 3
    then show ?thesis using A [of e1] B [of e2] Cons.prems(3) by simp
  next
    case 4
    then show ?thesis using A [of e2] B [of e1] Cons.prems(3) by simp
  qed
qed

subsection \<open>Types of the candidates\<close>

lemma type_ok_True: "type_ok L tag en = Inr True \<Longrightarrow> spec_typed L tag (fst en)"
  by (auto simp: type_ok_def spec_typed_def spec_in_types_def split: option.splits if_splits)

lemma filter_r_Inr:
  "filter_r P xs = Inr ys \<Longrightarrow> set ys \<subseteq> set xs \<and> (\<forall>y \<in> set ys. P y = Inr True)"
proof (induction xs arbitrary: ys)
  case Nil
  then show ?case by simp
next
  case (Cons x xs)
  from Cons.prems obtain b ys' where b: "P x = Inr b" and r: "filter_r P xs = Inr ys'"
    and ys: "ys = (if b then x # ys' else ys')"
    by (auto split: sum.splits)
  from Cons.IH [OF r] b ys show ?case by auto
qed

lemma set_dict_upd: "set (dict_upd d k v) \<subseteq> insert (k, v) (set d)"
  by (induction d k v rule: dict_upd.induct) auto

lemma upd_max_keys: "fst ` set (upd_max s cands e) \<subseteq> insert e (fst ` set cands)"
proof -
  have "fst ` set (dict_upd cands e s) \<subseteq> insert e (fst ` set cands)"
    using set_dict_upd [of cands e s] by force
  then show ?thesis
    by (auto simp: upd_max_def split: option.splits)
qed

lemma upd_max_fold_keys: "fst ` set (foldl (upd_max s) cands es) \<subseteq> fst ` set cands \<union> set es"
proof (induction es arbitrary: cands)
  case Nil
  show ?case by simp
next
  case (Cons e es)
  from Cons.IH [of "upd_max s cands e"] upd_max_keys [of s cands e]
  show ?case by auto
qed

lemma set_iter_set: "set (iter_set L xs) = set xs"
  by (simp add: iter_set_def Let_def)

lemma distinct_iter_set: "distinct (iter_set L xs)"
  by (simp add: iter_set_def Let_def)

lemma add_neighbour_typed:
  assumes "add_neighbour L tag cands x = Inr cands'" and "typed_cands L tag cands"
  shows "typed_cands L tag cands'"
proof -
  obtain ind score where x: "x = (ind, score)" by (cases x)
  from assms(1) obtain es es' where "filter_r (type_ok L tag) es = Inr es'"
    and c: "cands' = foldl (upd_max score) cands (iter_set L es')"
    by (auto simp: add_neighbour_def x split: sum.splits)
  then have ok: "\<forall>y \<in> set es'. spec_typed L tag (fst y)"
    using filter_r_Inr [of "type_ok L tag" es es'] by (auto dest: type_ok_True)
  have "fst ` set cands' \<subseteq> fst ` set cands \<union> set es'"
    unfolding c using upd_max_fold_keys [of score cands "iter_set L es'"]
    by (simp add: set_iter_set)
  with ok assms(2) show ?thesis
    unfolding typed_cands_def list_all_iff by force
qed

lemma add_neighbours_typed:
  "foldl_r (add_neighbour L tag) cands pairs = Inr cands' \<Longrightarrow> typed_cands L tag cands \<Longrightarrow>
     typed_cands L tag cands'"
  by (induction pairs arbitrary: cands) (auto split: sum.splits dest: add_neighbour_typed)

lemma dict_extend_typed:
  assumes "typed_dict L tags d"
    and "cands = [] \<or> (k < length tags \<and> typed_cands L (tags ! k) cands)"
  shows "typed_dict L tags (dict_extend d k cands)"
proof -
  define P where "P = (\<lambda>c :: string \<times> nat \<times> real. k < length tags \<and> spec_typed L (tags ! k) (fst c))"
  define old where "old = (case map_of d k of None \<Rightarrow> [] | Some v \<Rightarrow> v)"
  define new where "new = map (\<lambda>c. (fst (fst c), snd (fst c), snd c)) cands"
  have old: "\<forall>c \<in> set old. P c"
  proof (cases "map_of d k")
    case None
    then show ?thesis by (simp add: old_def)
  next
    case (Some v)
    then have "(k, v) \<in> set d" by (rule map_of_SomeD)
    with assms(1) have "\<forall>c \<in> set v. P c"
      unfolding typed_dict_def list_all_iff P_def by fastforce
    with Some show ?thesis by (simp add: old_def)
  qed
  have new: "\<forall>c \<in> set new. P c"
    using assms(2) unfolding typed_cands_def list_all_iff P_def new_def by auto
  have sub: "set (dict_extend d k cands) \<subseteq> insert (k, old @ new) (set d)"
    unfolding dict_extend_def old_def new_def by (rule set_dict_upd)
  show ?thesis
    unfolding typed_dict_def list_all_iff
  proof (intro ballI)
    fix kv c
    assume kv: "kv \<in> set (dict_extend d k cands)" and c: "c \<in> set (snd kv)"
    from kv sub consider "kv = (k, old @ new)" | "kv \<in> set d" by auto
    then show "fst kv < length tags \<and> spec_typed L (tags ! fst kv) (fst c)"
    proof cases
      case 1
      with c old new have "P c" by auto
      with 1 show ?thesis by (simp add: P_def)
    next
      case 2
      with c assms(1) show ?thesis unfolding typed_dict_def list_all_iff by blast
    qed
  qed
qed

lemma cand_step_inv:
  assumes inv: "cand_inv L tags S st"
    and x: "x \<in> S"
    and h1: "\<forall>y \<in> S. fst y < length tags \<and> fst (snd (snd y)) = tags ! fst y"
    and h2: "\<forall>y \<in> S. \<forall>z \<in> S. fst (snd y) = fst (snd z) \<longrightarrow> fst y = fst z"
    and step: "cand_step L fw DI st x = Inr st'"
  shows "cand_inv L tags S st'"
proof -
  obtain index word_count tag flag where xe: "x = (index, word_count, tag, flag)"
    by (cases x) auto
  from h1 x xe have tag: "index < length tags" "tag = tags ! index" by auto
  define st1 where "st1 = (if flag then st\<lparr>words_i := words_i st + 1\<rparr> else st\<lparr>ind_i := ind_i st + 1\<rparr>)"
  define st2 where "st2 =
    (if word_count \<noteq> prev_word_count st1
     then st1\<lparr>candidate_entities_dict :=
               dict_extend (candidate_entities_dict st1) (prev_index st1) (candidate_entities st1),
             candidate_entities := []\<rparr>
     else st1)"
  have st1: "candidate_entities_dict st1 = candidate_entities_dict st"
    "candidate_entities st1 = candidate_entities st" "prev_index st1 = prev_index st"
    "prev_word_count st1 = prev_word_count st"
    by (simp_all add: st1_def)
  from step obtain pairs where nb: "neighbours L fw DI st flag = Inr pairs"
    by (cases "neighbours L fw DI st flag") (simp_all add: cand_step_def xe)
  with step have step': "(case foldl_r (add_neighbour L tag) (candidate_entities st2) pairs of
       Inl e \<Rightarrow> Inl e
     | Inr cands \<Rightarrow> Inr (st2\<lparr>candidate_entities := cands, prev_index := index,
                            prev_word_count := word_count, last_index := Some index\<rparr>)) = Inr st'"
    unfolding cand_step_def xe prod.case Let_def st1_def [symmetric] st2_def [symmetric]
    by simp
  then obtain cands where
    c: "foldl_r (add_neighbour L tag) (candidate_entities st2) pairs = Inr cands"
    and st': "st' = st2\<lparr>candidate_entities := cands, prev_index := index,
                         prev_word_count := word_count, last_index := Some index\<rparr>"
    by (cases "foldl_r (add_neighbour L tag) (candidate_entities st2) pairs") simp_all
  have d': "candidate_entities_dict st' = candidate_entities_dict st2"
    and c': "candidate_entities st' = cands"
    and p': "prev_index st' = index" "prev_word_count st' = word_count"
      "last_index st' = Some index"
    by (simp_all add: st')
  have dict2: "typed_dict L tags (candidate_entities_dict st2)"
  proof (cases "word_count \<noteq> prev_word_count st")
    case True
    from inv have "typed_dict L tags
        (dict_extend (candidate_entities_dict st) (prev_index st) (candidate_entities st))"
      unfolding cand_inv_def by (intro dict_extend_typed) auto
    with True show ?thesis by (simp add: st2_def st1)
  next
    case False
    with inv show ?thesis by (simp add: st2_def st1 cand_inv_def)
  qed
  have cands2: "typed_cands L tag (candidate_entities st2)"
  proof (cases "word_count \<noteq> prev_word_count st \<or> candidate_entities st = []")
    case True
    then have "candidate_entities st2 = []" by (auto simp: st2_def st1)
    then show ?thesis by (simp add: typed_cands_def)
  next
    case False
    then have eq: "word_count = prev_word_count st" and ne: "candidate_entities st \<noteq> []"
      by auto
    from inv ne have t: "typed_cands L (tags ! prev_index st) (candidate_entities st)"
      unfolding cand_inv_def by blast
    from inv ne have "\<exists>y \<in> S. fst y = prev_index st \<and> fst (snd y) = prev_word_count st"
      unfolding cand_inv_def by blast
    then obtain y where y: "y \<in> S" "fst y = prev_index st" "fst (snd y) = prev_word_count st"
      by blast
    from h2 y(1) x have "fst (snd y) = fst (snd x) \<longrightarrow> fst y = fst x" by blast
    with y eq have "prev_index st = index" by (simp add: xe)
    with t tag eq show ?thesis by (simp add: st2_def st1)
  qed
  from add_neighbours_typed [OF c cands2] have "typed_cands L tag cands" .
  moreover have "\<exists>y \<in> S. fst y = index \<and> fst (snd y) = word_count"
    using x xe by force
  ultimately show ?thesis
    unfolding cand_inv_def d' c' p' using dict2 tag by simp
qed

lemma cand_loop_inv:
  assumes "foldl_r (cand_step L fw DI) st xs = Inr st'" and "cand_inv L tags S st"
    and "set xs \<subseteq> S"
    and "\<forall>y \<in> S. fst y < length tags \<and> fst (snd (snd y)) = tags ! fst y"
    and "\<forall>y \<in> S. \<forall>z \<in> S. fst (snd y) = fst (snd z) \<longrightarrow> fst y = fst z"
  shows "cand_inv L tags S st'"
  using assms(1,2,3)
proof (induction xs arbitrary: st)
  case Nil
  then show ?case by simp
next
  case (Cons x xs)
  from Cons.prems(1) obtain st1 where s: "cand_step L fw DI st x = Inr st1"
    and r: "foldl_r (cand_step L fw DI) st1 xs = Inr st'"
    by (auto split: sum.splits)
  from Cons.prems(3) have "x \<in> S" "set xs \<subseteq> S" by auto
  from cand_step_inv [OF Cons.prems(2) this(1) assms(4,5) s] Cons.IH [OF r _ this(2)]
  show ?case by blast
qed

lemma gen_candidates_typed:
  assumes "gen_candidates L dw DI index0 = Inr (cand_dict, index')"
    and "\<forall>y \<in> set (zip (indices dw) (zip (word_counts dw) (zip (word_tags dw) (word_fnd_flags dw)))).
           fst y < length tags \<and> fst (snd (snd y)) = tags ! fst y"
    and "\<forall>y \<in> set (zip (indices dw) (zip (word_counts dw) (zip (word_tags dw) (word_fnd_flags dw)))).
         \<forall>z \<in> set (zip (indices dw) (zip (word_counts dw) (zip (word_tags dw) (word_fnd_flags dw)))).
           fst (snd y) = fst (snd z) \<longrightarrow> fst y = fst z"
  shows "typed_dict L tags cand_dict"
proof -
  let ?xs = "zip (indices dw) (zip (word_counts dw) (zip (word_tags dw) (word_fnd_flags dw)))"
  let ?st0 = "\<lparr>candidate_entities_dict = [], prev_word_count = 0, prev_index = 0,
              candidate_entities = [], words_i = 0, ind_i = 0, last_index = index0\<rparr>"
  from assms(1) obtain st where
    loop: "foldl_r (cand_step L (fnd_words dw) DI) ?st0 ?xs = Inr st"
    by (cases "foldl_r (cand_step L (fnd_words dw) DI) ?st0 ?xs") (simp_all add: gen_candidates_def)
  with assms(1) obtain index where li: "last_index st = Some index"
    by (cases "last_index st") (simp_all add: gen_candidates_def)
  with assms(1) loop
  have cd: "cand_dict = dict_extend (candidate_entities_dict st) index (candidate_entities st)"
    by (simp add: gen_candidates_def)
  have "cand_inv L tags (set ?xs) ?st0"
    by (simp add: cand_inv_def typed_dict_def)
  from cand_loop_inv [OF loop this subset_refl assms(2,3)]
  have inv: "cand_inv L tags (set ?xs) st" .
  show ?thesis
    unfolding cd using inv li
    by (intro dict_extend_typed) (auto simp: cand_inv_def)
qed

subsection \<open>Candidate generation keeps to the types\<close>

lemma dw_app_loop_list:
  "zip (indices (dw_app L dw_empty es))
     (zip (word_counts (dw_app L dw_empty es))
        (zip (word_tags (dw_app L dw_empty es)) (word_fnd_flags (dw_app L dw_empty es)))) =
   map (\<lambda>e. (fst e, fst (snd e), fst (snd (snd e)), indexed L (entry_form e))) es"
  by (induction es) (simp_all add: dw_app_def dw_empty_def)

lemma collect_words_nth:
  assumes "collect_words L esb tb = (nfs, wc, dws)" and "k < length dws"
  shows "k < length (zip esb tb) \<and>
         (\<exists>wc'. dws ! k = dw_app L dw_empty (spec_doc_entries L 0 wc' (zip (esb ! k) (tb ! k))))"
proof -
  from assms(1) have dws: "dws = map (dw_app L dw_empty) (spec_batch_entries L 0 (zip esb tb))"
    by (simp add: collect_words_spec)
  with assms(2) have k: "k < length (zip esb tb)"
    by (simp add: length_spec_batch_entries)
  from spec_batch_entries_nth [OF k, of L 0] obtain wc' where
    "spec_batch_entries L 0 (zip esb tb) ! k =
       spec_doc_entries L 0 wc' (zip (fst (zip esb tb ! k)) (snd (zip esb tb ! k)))"
    by blast
  with k have "dws ! k = dw_app L dw_empty (spec_doc_entries L 0 wc' (zip (esb ! k) (tb ! k)))"
    by (simp add: dws length_spec_batch_entries)
  with k show ?thesis by blast
qed

text \<open>
  Claim C8. Let the word lists of a batch be those that \<^verbatim>\<open>link_entities\<close> collects, and let
  candidate generation return for a document. Then every candidate entity filed in
  \<^verbatim>\<open>candidate_entities_dict\<close> under the number of a mention has an id that belongs to the
  type set of that mention's tag or to the set \<^verbatim>\<open>"AMB"\<close>.
\<close>

theorem candidates_typed:
  assumes "collect_words L esb tb = (nfs, wc, dws)"
    and "k < length dws"
    and "gen_candidates L (dws ! k) DI index0 = Inr (cand_dict, index')"
  shows "\<forall>kv \<in> set cand_dict. \<forall>c \<in> set (snd kv).
           fst kv < length (tb ! k) \<and> spec_typed L (tb ! k ! fst kv) (fst c)"
proof -
  from collect_words_nth [OF assms(1,2)] obtain wc' where
    k: "k < length (zip esb tb)"
    and dw: "dws ! k = dw_app L dw_empty (spec_doc_entries L 0 wc' (zip (esb ! k) (tb ! k)))"
    by blast
  let ?ms = "zip (esb ! k) (tb ! k)"
  let ?es = "spec_doc_entries L 0 wc' ?ms"
  let ?f = "\<lambda>e :: nat \<times> nat \<times> string \<times> ustr.
              (fst e, fst (snd e), fst (snd (snd e)), indexed L (entry_form e))"
  have mem: "fst e < length (tb ! k) \<and> fst (snd (snd e)) = tb ! k ! fst e" if "e \<in> set ?es" for e
  proof -
    from spec_doc_entries_mem [OF that] have "fst e < length ?ms"
      and "fst (snd (snd e)) = snd (?ms ! fst e)"
      by simp_all
    then show ?thesis by simp
  qed
  have h1: "\<forall>y \<in> set (map ?f ?es). fst y < length (tb ! k) \<and> fst (snd (snd y)) = tb ! k ! fst y"
  proof
    fix y assume "y \<in> set (map ?f ?es)"
    then obtain e where "e \<in> set ?es" "y = ?f e" by (auto simp: image_iff)
    with mem [of e] show "fst y < length (tb ! k) \<and> fst (snd (snd y)) = tb ! k ! fst y"
      by simp
  qed
  have h2: "\<forall>y \<in> set (map ?f ?es). \<forall>z \<in> set (map ?f ?es).
              fst (snd y) = fst (snd z) \<longrightarrow> fst y = fst z"
  proof (intro ballI impI)
    fix y z
    assume "y \<in> set (map ?f ?es)" and "z \<in> set (map ?f ?es)"
      and eq: "fst (snd y) = fst (snd z)"
    then obtain e1 e2 where e: "e1 \<in> set ?es" "e2 \<in> set ?es" and yz: "y = ?f e1" "z = ?f e2"
      by (auto simp: image_iff)
    from eq yz have "fst (snd e1) = fst (snd e2)" by simp
    from spec_doc_entries_count_index [OF e this] yz show "fst y = fst z" by simp
  qed
  from assms(3) have g: "gen_candidates L (dw_app L dw_empty ?es) DI index0 = Inr (cand_dict, index')"
    by (simp add: dw)
  have "typed_dict L (tb ! k) cand_dict"
    by (rule gen_candidates_typed [OF g]) (unfold dw_app_loop_list, rule h1, rule h2)
  then show ?thesis
    unfolding typed_dict_def list_all_iff by blast
qed

theorem candidates_typed_witness:
  "collect_words ex_linker [[[ex_moskva]]] [[''LOC'']] = ([], 1, [ex_words]) \<and>
   gen_candidates ex_linker ([ex_words] ! 0) [] None = Inr ([(0, [(''Q649'', 1, 1)])], Some 0) \<and>
   (0 :: nat) < length ([[''LOC'']] ! 0) \<and> spec_typed ex_linker ([[''LOC'']] ! 0 ! 0) ''Q649''"
proof -
  have c: "collect_words ex_linker [[[ex_moskva]]] [[''LOC'']] = ([], 1, [ex_words])"
    by code_simp
  have g: "gen_candidates ex_linker ([ex_words] ! 0) [] None = Inr ([(0, [(''Q649'', 1, 1)])], Some 0)"
    by code_simp
  have k: "(0 :: nat) < length [ex_words]" by simp
  from candidates_typed [OF c k g] c g show ?thesis by simp
qed

subsection \<open>The lookup policy\<close>

lemma mention_entries_forms:
  "map entry_form (spec_mention_entries L i tag wc ws) = concat (map (spec_forms L) ws)"
  by (induction ws arbitrary: wc) (simp_all add: entry_form_def comp_def)

lemma doc_entries_forms:
  "map entry_form (spec_doc_entries L i wc ms) = spec_doc_forms L ms"
  by (induction ms arbitrary: i wc) (simp_all add: spec_doc_forms_def mention_entries_forms)

lemma nf_part_forms:
  "map fst (nf_part L k es) = filter (\<lambda>w. \<not> indexed L w) (map entry_form es)"
  by (simp add: nf_part_def comp_def)

lemma batch_nf_words:
  "map fst (concat (map (\<lambda>x. nf_part L (fst x) (snd x))
                      (zip [k..<k + length ds] (spec_batch_entries L wc ds)))) =
   concat (map (\<lambda>d. filter (\<lambda>w. \<not> indexed L w) (spec_doc_forms L (zip (fst d) (snd d)))) ds)"
proof (induction ds arbitrary: k wc)
  case Nil
  show ?case by simp
next
  case (Cons d ds)
  have z: "zip [k..<k + length (d # ds)] (spec_batch_entries L wc (d # ds)) =
      (k, spec_doc_entries L 0 wc (zip (fst d) (snd d))) #
      zip [Suc k..<Suc k + length ds]
        (spec_batch_entries L (wc + doc_word_total (zip (fst d) (snd d))) ds)"
    by (simp add: upt_rec)
  show ?case
    unfolding z using Cons.IH [of "Suc k"]
    by (simp add: nf_part_forms doc_entries_forms)
qed

lemma cand_step_counters:
  assumes "cand_step L fw DI st x = Inr st'"
  shows "words_i st' = words_i st + (if snd (snd (snd x)) then 1 else 0) \<and>
         ind_i st' = ind_i st + (if snd (snd (snd x)) then 0 else 1)"
proof -
  obtain index word_count tag flag where xe: "x = (index, word_count, tag, flag)"
    by (cases x) auto
  define st1 where "st1 = (if flag then st\<lparr>words_i := words_i st + 1\<rparr> else st\<lparr>ind_i := ind_i st + 1\<rparr>)"
  define st2 where "st2 =
    (if word_count \<noteq> prev_word_count st1
     then st1\<lparr>candidate_entities_dict :=
               dict_extend (candidate_entities_dict st1) (prev_index st1) (candidate_entities st1),
             candidate_entities := []\<rparr>
     else st1)"
  from assms obtain pairs where nb: "neighbours L fw DI st flag = Inr pairs"
    by (cases "neighbours L fw DI st flag") (simp_all add: cand_step_def xe)
  with assms have "(case foldl_r (add_neighbour L tag) (candidate_entities st2) pairs of
       Inl e \<Rightarrow> Inl e
     | Inr cands \<Rightarrow> Inr (st2\<lparr>candidate_entities := cands, prev_index := index,
                            prev_word_count := word_count, last_index := Some index\<rparr>)) = Inr st'"
    unfolding cand_step_def xe prod.case Let_def st1_def [symmetric] st2_def [symmetric]
    by simp
  then obtain cands where
    "st' = st2\<lparr>candidate_entities := cands, prev_index := index,
               prev_word_count := word_count, last_index := Some index\<rparr>"
    by (cases "foldl_r (add_neighbour L tag) (candidate_entities st2) pairs") auto
  then have "words_i st' = words_i st1" "ind_i st' = ind_i st1"
    by (simp_all add: st2_def)
  then show ?thesis by (simp add: st1_def xe)
qed

lemma cand_loop_counters:
  "foldl_r (cand_step L fw DI) st xs = Inr st' \<Longrightarrow>
     words_i st' = words_i st + length (filter (\<lambda>x. snd (snd (snd x))) xs) \<and>
     ind_i st' = ind_i st + length (filter (\<lambda>x. \<not> snd (snd (snd x))) xs)"
proof (induction xs arbitrary: st)
  case Nil
  then show ?case by simp
next
  case (Cons x xs)
  from Cons.prems obtain st1 where s: "cand_step L fw DI st x = Inr st1"
    and r: "foldl_r (cand_step L fw DI) st1 xs = Inr st'"
    by (auto split: sum.splits)
  from cand_step_counters [OF s] Cons.IH [OF r] show ?case by simp
qed

lemma filter_nth_count:
  assumes "j < length xs" and "P (xs ! j)"
  shows "length (filter P (take j xs)) < length (filter P xs) \<and>
         filter P xs ! length (filter P (take j xs)) = xs ! j"
proof -
  have "xs = take j xs @ xs ! j # drop (Suc j) xs"
    using assms(1) by (simp add: id_take_nth_drop)
  then have "filter P xs = filter P (take j xs) @ xs ! j # filter P (drop (Suc j) xs)"
    using assms(2) by (metis filter.simps(2) filter_append)
  then show ?thesis by (simp add: nth_append)
qed

lemma loop_list_collected:
  "loop_list (dw_app L dw_empty es) =
     map (\<lambda>e. (fst e, fst (snd e), fst (snd (snd e)), indexed L (entry_form e))) es"
  unfolding loop_list_def by (rule dw_app_loop_list)

lemma doc_lookup:
  assumes j: "j < length es"
    and loop: "foldl_r (cand_step L (fnd_words (dw_app L dw_empty es)) DI) (cand_init index0)
                 (take j (loop_list (dw_app L dw_empty es))) = Inr st"
  shows "neighbours L (fnd_words (dw_app L dw_empty es)) DI st (indexed L (map entry_form es ! j)) =
           (if indexed L (map entry_form es ! j) then Inr [(Inl (map entry_form es ! j), 1)]
            else if length (filter (\<lambda>w. \<not> indexed L w) (take j (map entry_form es))) < length DI
            then Inr (spec_similarities L
                        (DI ! length (filter (\<lambda>w. \<not> indexed L w) (take j (map entry_form es)))))
            else Inl IndexError)"
proof -
  let ?forms = "map entry_form es"
  let ?f = "\<lambda>e :: nat \<times> nat \<times> string \<times> ustr.
              (fst e, fst (snd e), fst (snd (snd e)), indexed L (entry_form e))"
  have fw: "fnd_words (dw_app L dw_empty es) = filter (indexed L) ?forms"
    by (simp add: dw_app_def dw_empty_def)
  have tk: "take j (loop_list (dw_app L dw_empty es)) = map ?f (take j es)"
    by (simp add: loop_list_collected take_map)
  from cand_loop_counters [OF loop]
  have wi: "words_i st = length (filter (indexed L) (take j ?forms))"
    and ii: "ind_i st = length (filter (\<lambda>w. \<not> indexed L w) (take j ?forms))"
    unfolding tk by (simp_all add: cand_init_def filter_map comp_def take_map)
  show ?thesis
  proof (cases "indexed L (?forms ! j)")
    case True
    from filter_nth_count [of j ?forms "indexed L"] j True
    have "words_i st < length (filter (indexed L) ?forms)"
      and "filter (indexed L) ?forms ! words_i st = ?forms ! j"
      unfolding wi by simp_all
    with True show ?thesis
      by (simp add: neighbours_def nth_r_def fw)
  next
    case False
    then show ?thesis
      by (cases "DI ! ind_i st")
         (simp add: neighbours_def nth_r_def ii [symmetric] spec_similarities_def)
  qed
qed

lemma el_add_words_spec:
  "foldl (el_add_word L doc_num) acc ws = acc @ map (\<lambda>w. (w, doc_num)) (concat (map (spec_forms L) ws))"
  by (induction ws arbitrary: acc) (simp_all add: el_add_word_def spec_forms_def)

lemma el_add_mentions_spec:
  "foldl (\<lambda>acc m. foldl (el_add_word L doc_num) acc (fst (snd m))) acc (zip ns ms) =
     acc @ map (\<lambda>w. (w, doc_num)) (spec_doc_forms L (take (length ns) ms))"
proof (induction ms arbitrary: acc ns)
  case Nil
  show ?case by (simp add: spec_doc_forms_def)
next
  case (Cons m ms)
  show ?case
  proof (cases ns)
    case Nil
    then show ?thesis by (simp add: spec_doc_forms_def)
  next
    case (Cons n ns')
    then show ?thesis
      using Cons.IH [of _ ns']
      by (simp add: el_add_words_spec spec_doc_forms_def)
  qed
qed

lemma el_add_doc_spec:
  "el_add_doc L acc (doc_num, entity_substr_list, tags_list) =
     acc @ map (\<lambda>w. (w, doc_num)) (spec_doc_forms L (zip entity_substr_list tags_list))"
  by (simp add: el_add_doc_def el_add_mentions_spec)

lemma el_add_docs_spec:
  "map fst (foldl (el_add_doc L) acc (zip ns ds)) =
     map fst acc @
     concat (map (\<lambda>d. spec_doc_forms L (zip (fst d) (snd d))) (take (length ns) ds))"
proof (induction ds arbitrary: acc ns)
  case Nil
  show ?case by simp
next
  case (Cons d ds)
  obtain ss ts where d: "d = (ss, ts)" by (cases d)
  show ?case
  proof (cases ns)
    case Nil
    then show ?thesis by simp
  next
    case (Cons n ns')
    then show ?thesis
      using Cons.IH [of _ ns']
      by (simp add: d el_add_doc_spec comp_def)
  qed
qed

lemma el_words_spec:
  "map fst (el_words_doc_nums L esb tb) =
     concat (map (\<lambda>d. spec_doc_forms L (zip (fst d) (snd d))) (zip esb tb))"
  unfolding el_words_doc_nums_def el_add_docs_spec by simp

subsection \<open>The answer of the fuzzy index, by document\<close>

lemma length_chop: "length (chop cs xs) = length cs"
  by (induction cs arbitrary: xs) simp_all

lemma chop_nth:
  "k < length cs \<Longrightarrow> chop cs xs ! k = take (cs ! k) (drop (sum_list (take k cs)) xs)"
proof (induction cs arbitrary: xs k)
  case Nil
  then show ?case by simp
next
  case (Cons c cs)
  then show ?case by (cases k) (simp_all add: add.commute)
qed

lemma concat_nth:
  "k < length xss \<Longrightarrow> n < length (xss ! k) \<Longrightarrow>
     length (concat (take k xss)) + n < length (concat xss) \<and>
     concat xss ! (length (concat (take k xss)) + n) = xss ! k ! n"
proof (induction xss arbitrary: k)
  case Nil
  then show ?case by simp
next
  case (Cons xs xss)
  show ?case
  proof (cases k)
    case 0
    with Cons.prems show ?thesis by (simp add: nth_append)
  next
    case (Suc k')
    with Cons.prems Cons.IH [of k'] show ?thesis by (simp add: nth_append)
  qed
qed

lemma regroup_same:
  "foldl regroup_step (B, Dl, k) (map (\<lambda>r. (r, k)) rs) = (B, Dl @ rs, k)"
  by (induction rs arbitrary: Dl) (simp_all add: regroup_step_def)

lemma regroup_block:
  "foldl regroup_step (B, Dl, prev) (map (\<lambda>r. (r, k)) rs) =
     (if rs = [] then (B, Dl, prev)
      else if k \<noteq> prev then (B @ [Dl] @ replicate (k - prev - 1) [], rs, k)
      else (B, Dl @ rs, k))"
proof (cases rs)
  case Nil
  then show ?thesis by simp
next
  case (Cons r rs')
  show ?thesis
  proof (cases "k = prev")
    case True
    then show ?thesis using regroup_same [of B Dl k rs] Cons by simp
  next
    case False
    have "foldl regroup_step (B, Dl, prev) (map (\<lambda>r. (r, k)) (r # rs')) =
        foldl regroup_step (B @ [Dl] @ replicate (k - prev - 1) [], [r], k) (map (\<lambda>r. (r, k)) rs')"
      using False by (simp add: regroup_step_def)
    also have "\<dots> = (B @ [Dl] @ replicate (k - prev - 1) [], [r] @ rs', k)"
      by (rule regroup_same)
    finally show ?thesis using False Cons by simp
  qed
qed

lemma tagged_Nil: "tagged k [] = []"
  by (simp add: tagged_def)

lemma tagged_Cons: "tagged k (b # bs) = map (\<lambda>r. (r, k)) b @ tagged (Suc k) bs"
  by (simp add: tagged_def upt_rec)

lemma ginv_block:
  assumes "ginv pre k st"
  shows "ginv (pre @ [rs]) (Suc k) (foldl regroup_step st (map (\<lambda>r. (r, k)) rs))"
proof -
  obtain B Dl prev where st: "st = (B, Dl, prev)" by (cases st) auto
  from assms have p: "prev < k" and l: "length B = prev"
    and e: "B @ [Dl] @ replicate (k - 1 - prev) [] = pre"
    by (simp_all add: ginv_def st)
  show ?thesis
  proof (cases "rs = []")
    case True
    from p have "k - prev = Suc (k - 1 - prev)" by simp
    then have "replicate (k - prev) ([] :: 'a list) = replicate (k - 1 - prev) [] @ [[]]"
      by (simp only: replicate_Suc replicate_append_same)
    then have "B @ [Dl] @ replicate (k - prev) [] =
        (B @ [Dl] @ replicate (k - 1 - prev) []) @ [[]]"
      by simp
    then have "B @ [Dl] @ replicate (Suc k - 1 - prev) [] = pre @ [rs]"
      unfolding e True by simp
    with True p l show ?thesis by (simp add: ginv_def st)
  next
    case False
    from p have ne: "k \<noteq> prev" by simp
    have len: "length pre = k" using e [symmetric] p l by simp
    have "foldl regroup_step st (map (\<lambda>r. (r, k)) rs) =
        (B @ [Dl] @ replicate (k - prev - 1) [], rs, k)"
      unfolding st regroup_block using False ne by simp
    also have "B @ [Dl] @ replicate (k - prev - 1) [] = pre"
      using e by (simp add: diff_commute)
    finally show ?thesis using len by (simp add: ginv_def)
  qed
qed

lemma ginv_blocks:
  "ginv pre k st \<Longrightarrow> ginv (pre @ bs) (k + length bs) (foldl regroup_step st (tagged k bs))"
proof (induction bs arbitrary: pre k st)
  case Nil
  then show ?case by (simp add: tagged_Nil)
next
  case (Cons b bs)
  from Cons.IH [OF ginv_block [OF Cons.prems, of b]] show ?case
    by (simp add: tagged_Cons)
qed

lemma regroup_first:
  "ginv [b] 1 (foldl regroup_step ([], [], 0) (map (\<lambda>r. (r, 0)) b))"
  unfolding regroup_block by (simp add: ginv_def)

lemma regroup_tagged:
  assumes "length bs \<le> n"
  shows "(case foldl regroup_step ([], [], 0) (tagged 0 bs) of
            (DI_batch, DI_list, prev_doc_num) \<Rightarrow>
              (let DI_batch' = (if DI_list \<noteq> [] then DI_batch @ [DI_list] else DI_batch)
               in DI_batch' @ replicate (n - length DI_batch') [])) =
         bs @ replicate (n - length bs) []"
proof (cases bs)
  case Nil
  then show ?thesis by (simp add: tagged_Nil)
next
  case (Cons b bs')
  obtain B Dl prev where st: "foldl regroup_step ([], [], 0) (tagged 0 bs) = (B, Dl, prev)"
    by (cases "foldl regroup_step ([], [], 0) (tagged 0 bs)") auto
  have "ginv ([b] @ bs') (1 + length bs') (foldl regroup_step ([], [], 0) (tagged 0 (b # bs')))"
    unfolding tagged_Cons foldl_append
    using ginv_blocks [OF regroup_first, of b bs'] by simp
  then have "ginv bs (length bs) (B, Dl, prev)"
    unfolding st [symmetric] Cons by simp
  then have p: "prev < length bs" and l: "length B = prev"
    and e: "B @ [Dl] @ replicate (length bs - 1 - prev) [] = bs"
    by (simp_all add: ginv_def)
  show ?thesis
  proof (cases "Dl = []")
    case True
    have "n - prev = Suc (length bs - 1 - prev) + (n - length bs)"
      using p assms by simp
    then have "replicate (n - prev) ([] :: 'a list) =
        [[]] @ replicate (length bs - 1 - prev) [] @ replicate (n - length bs) []"
      by (simp add: replicate_add [symmetric])
    then have "B @ replicate (n - prev) [] = (B @ [Dl] @ replicate (length bs - 1 - prev) []) @
        replicate (n - length bs) []"
      using True by simp
    then show ?thesis unfolding st e using True l by simp
  next
    case False
    have "n - Suc prev = (length bs - 1 - prev) + (n - length bs)"
      using p assms by simp
    then have "replicate (n - Suc prev) ([] :: 'a list) =
        replicate (length bs - 1 - prev) [] @ replicate (n - length bs) []"
      by (simp add: replicate_add [symmetric])
    then have "(B @ [Dl]) @ replicate (n - Suc prev) [] =
        (B @ [Dl] @ replicate (length bs - 1 - prev) []) @ replicate (n - length bs) []"
      by simp
    then show ?thesis unfolding st e using False l by simp
  qed
qed

lemma zip_replicate_right: "zip xs (replicate n y) = map (\<lambda>x. (x, y)) (take n xs)"
proof (induction xs arbitrary: n)
  case Nil
  show ?case by simp
next
  case (Cons x xs)
  then show ?case by (cases n) simp_all
qed

lemma zip_chop:
  "zip rows (concat (map (\<lambda>x. replicate (snd x) (fst x)) (zip [k..<k + length cs] cs))) =
     tagged k (chop cs rows)"
proof (induction cs arbitrary: k rows)
  case Nil
  show ?case by (simp add: tagged_Nil)
next
  case (Cons c cs)
  have "zip [k..<k + length (c # cs)] (c # cs) = (k, c) # zip [Suc k..<Suc k + length cs] cs"
    by (simp add: upt_rec)
  then show ?case
    using Cons.IH [of "drop c rows" "Suc k"]
    by (simp add: tagged_Cons zip_append2 zip_replicate_right)
qed

lemma regroup_chop:
  assumes "length cs \<le> n"
  shows "regroup n D_all I_all
           (concat (map (\<lambda>x. replicate (snd x) (fst x)) (zip [0..<length cs] cs))) =
         chop cs (zip D_all I_all) @ replicate (n - length cs) []"
proof -
  have "zip (zip D_all I_all) (concat (map (\<lambda>x. replicate (snd x) (fst x)) (zip [0..<0 + length cs] cs))) =
      tagged 0 (chop cs (zip D_all I_all))"
    by (rule zip_chop)
  then show ?thesis
    unfolding regroup_def using regroup_tagged [of "chop cs (zip D_all I_all)" n] assms
    by (simp add: length_chop)
qed

lemma nf_part_doc_nums:
  "map snd (nf_part L k es) =
     replicate (length (filter (\<lambda>w. \<not> indexed L w) (map entry_form es))) k"
  by (simp add: nf_part_def comp_def map_replicate_const)

lemma batch_nf_doc_nums:
  "map snd (concat (map (\<lambda>x. nf_part L (fst x) (snd x))
                      (zip [k..<k + length ds] (spec_batch_entries L wc ds)))) =
   concat (map (\<lambda>x. replicate (snd x) (fst x))
             (zip [k..<k + length ds] (map (\<lambda>d. length (spec_absent L d)) ds)))"
proof (induction ds arbitrary: k wc)
  case Nil
  show ?case by simp
next
  case (Cons d ds)
  have z: "zip [k..<k + length (d # ds)] (spec_batch_entries L wc (d # ds)) =
      (k, spec_doc_entries L 0 wc (zip (fst d) (snd d))) #
      zip [Suc k..<Suc k + length ds]
        (spec_batch_entries L (wc + doc_word_total (zip (fst d) (snd d))) ds)"
    by (simp add: upt_rec)
  have z': "zip [k..<k + length (d # ds)] (map (\<lambda>d. length (spec_absent L d)) (d # ds)) =
      (k, length (spec_absent L d)) #
      zip [Suc k..<Suc k + length ds] (map (\<lambda>d. length (spec_absent L d)) ds)"
    by (simp add: upt_rec)
  show ?case
    unfolding z z' using Cons.IH [of "Suc k"]
    by (simp add: nf_part_doc_nums doc_entries_forms spec_absent_def)
qed

lemma fuzzy_rows_spec:
  "fuzzy_rows L esb tb =
     (map (dw_app L dw_empty) (spec_batch_entries L 0 (zip esb tb)),
      chop (map (\<lambda>d. length (spec_absent L d)) (zip esb tb))
        (if spec_query L esb tb \<noteq> []
         then zip (fst (faiss_search L (spec_query L esb tb) (num_faiss_candidate_entities L)))
                (snd (faiss_search L (spec_query L esb tb) (num_faiss_candidate_entities L)))
         else []) @
      replicate (length esb - length (zip esb tb)) [])"
proof -
  define docs where "docs = zip esb tb"
  define nfs where "nfs = concat (map (\<lambda>x. nf_part L (fst x) (snd x))
                (zip [0..<length docs] (spec_batch_entries L 0 docs)))"
  define cs where "cs = map (\<lambda>d. length (spec_absent L d)) docs"
  have sa: "spec_absent L =
      (\<lambda>d. filter (\<lambda>w. \<not> indexed L w) (spec_doc_forms L (zip (fst d) (snd d))))"
    by (simp add: fun_eq_iff spec_absent_def)
  have q: "map fst nfs = spec_query L esb tb"
    unfolding nfs_def spec_query_def docs_def [symmetric] sa
    using batch_nf_words [of L 0 docs 0] by simp
  have n: "map snd nfs = concat (map (\<lambda>x. replicate (snd x) (fst x)) (zip [0..<length cs] cs))"
    unfolding nfs_def cs_def using batch_nf_doc_nums [of L 0 docs 0] by simp
  have le: "length cs \<le> length esb"
    by (simp add: cs_def docs_def)
  have len: "length cs = length docs" by (simp add: cs_def)
  have "fuzzy_rows L esb tb =
      (map (dw_app L dw_empty) (spec_batch_entries L 0 docs),
       regroup (length esb)
         (fst (if map fst nfs \<noteq> []
               then faiss_search L (map fst nfs) (num_faiss_candidate_entities L) else ([], [])))
         (snd (if map fst nfs \<noteq> []
               then faiss_search L (map fst nfs) (num_faiss_candidate_entities L) else ([], [])))
         (map snd nfs))"
    unfolding fuzzy_rows_def collect_words_spec prod.case Let_def docs_def [symmetric]
      nfs_def [symmetric] ..
  also have "\<dots> =
      (map (dw_app L dw_empty) (spec_batch_entries L 0 docs),
       chop cs (if spec_query L esb tb \<noteq> []
                then zip (fst (faiss_search L (spec_query L esb tb) (num_faiss_candidate_entities L)))
                       (snd (faiss_search L (spec_query L esb tb) (num_faiss_candidate_entities L)))
                else []) @
       replicate (length esb - length cs) [])"
    unfolding q n regroup_chop [OF le] by simp
  finally show ?thesis
    unfolding len unfolding cs_def docs_def .
qed

lemma chop_Nil: "chop cs [] = replicate (length cs) []"
  by (induction cs) simp_all

lemma sum_list_lengths: "sum_list (map length xss) = length (concat xss)"
  by (induction xss) simp_all

lemma el_scores_each:
  "el_scores L scores_list = map (\<lambda>d. if num_faiss_cells L > 1 then 1 - d else d) scores_list"
  by (simp add: el_scores_def)

lemma el_search_spec:
  "el_search L esb tb =
     (if concat (map (\<lambda>d. spec_doc_forms L (zip (fst d) (snd d))) (zip esb tb)) = []
      then Inl ValueError
      else Inr (faiss_search L
                  (concat (map (\<lambda>d. spec_doc_forms L (zip (fst d) (snd d))) (zip esb tb)))
                  (num_faiss_candidate_entities L)))"
proof -
  have "el_words_doc_nums L esb tb = [] \<longleftrightarrow> map fst (el_words_doc_nums L esb tb) = []"
    by simp
  then show ?thesis
    unfolding el_search_def by (simp only: el_words_spec)
qed

lemma fuzzy_row_of_form:
  assumes fr: "fuzzy_rows L esb tb = (dws, DI_batch)"
    and fs: "faiss_search L (spec_query L esb tb) (num_faiss_candidate_entities L) = (D_all, I_all)"
    and k: "k < length (zip esb tb)"
    and j: "j < length (spec_doc_forms L (zip (esb ! k) (tb ! k)))"
    and a: "\<not> indexed L (spec_doc_forms L (zip (esb ! k) (tb ! k)) ! j)"
  defines "n \<equiv> length (filter (\<lambda>w. \<not> indexed L w) (take j (spec_doc_forms L (zip (esb ! k) (tb ! k)))))"
  shows "spec_pos L esb tb k j < length (spec_query L esb tb)"
    and "spec_query L esb tb ! spec_pos L esb tb k j = spec_doc_forms L (zip (esb ! k) (tb ! k)) ! j"
    and "n < length (DI_batch ! k) \<longleftrightarrow> spec_pos L esb tb k j < length (zip D_all I_all)"
    and "n < length (DI_batch ! k) \<Longrightarrow> DI_batch ! k ! n = zip D_all I_all ! spec_pos L esb tb k j"
proof -
  define docs where "docs = zip esb tb"
  define forms where "forms = spec_doc_forms L (zip (esb ! k) (tb ! k))"
  define cs where "cs = map (\<lambda>d. length (spec_absent L d)) docs"
  define off where "off = length (spec_query L (take k esb) (take k tb))"
  have dk: "docs ! k = (esb ! k, tb ! k)" using k by (simp add: docs_def)
  have ab: "spec_absent L (docs ! k) = filter (\<lambda>w. \<not> indexed L w) forms"
    by (simp add: spec_absent_def dk forms_def)
  from filter_nth_count [of j forms "\<lambda>w. \<not> indexed L w"] j a
  have n1: "n < length (spec_absent L (docs ! k))"
    and n2: "spec_absent L (docs ! k) ! n = forms ! j"
    unfolding ab n_def forms_def by simp_all
  have kk: "k < length (map (spec_absent L) docs)" using k by (simp add: docs_def)
  have tk: "take k docs = zip (take k esb) (take k tb)" by (simp add: docs_def take_zip)
  have off: "off = length (concat (take k (map (spec_absent L) docs)))"
    by (simp add: off_def spec_query_def tk take_map)
  have pos: "spec_pos L esb tb k j = off + n"
    by (simp add: spec_pos_def off_def n_def)
  from concat_nth [OF kk, of n] n1 k
  have c1: "off + n < length (spec_query L esb tb)"
    and c2: "spec_query L esb tb ! (off + n) = spec_absent L (docs ! k) ! n"
    unfolding off by (simp_all add: spec_query_def docs_def)
  show "spec_pos L esb tb k j < length (spec_query L esb tb)"
    unfolding pos by (rule c1)
  show "spec_query L esb tb ! spec_pos L esb tb k j = spec_doc_forms L (zip (esb ! k) (tb ! k)) ! j"
    unfolding pos c2 n2 forms_def ..
  from c1 have ne: "spec_query L esb tb \<noteq> []" by auto
  have "DI_batch =
      chop cs (zip D_all I_all) @ replicate (length esb - length (zip esb tb)) []"
    using fr unfolding fuzzy_rows_spec cs_def docs_def by (simp add: ne fs)
  moreover have "length (chop cs (zip D_all I_all)) = length docs"
    by (simp add: length_chop cs_def)
  ultimately have "DI_batch ! k = chop cs (zip D_all I_all) ! k"
    using k by (simp add: nth_append docs_def)
  also have "\<dots> = take (cs ! k) (drop (sum_list (take k cs)) (zip D_all I_all))"
    using k by (intro chop_nth) (simp add: cs_def docs_def)
  also have "cs ! k = length (spec_absent L (docs ! k))"
    using k by (simp add: cs_def docs_def)
  also have "sum_list (take k cs) = off"
    unfolding off cs_def take_map
    using sum_list_lengths [of "map (spec_absent L) (take k docs)"] by (simp add: comp_def)
  finally have DI: "DI_batch ! k =
      take (length (spec_absent L (docs ! k))) (drop off (zip D_all I_all))" .
  show "n < length (DI_batch ! k) \<longleftrightarrow> spec_pos L esb tb k j < length (zip D_all I_all)"
    unfolding DI pos using n1 by auto
  show "DI_batch ! k ! n = zip D_all I_all ! spec_pos L esb tb k j" if "n < length (DI_batch ! k)"
  proof -
    from that have "n < length (drop off (zip D_all I_all))" unfolding DI by simp
    then have "n < length (zip D_all I_all) - off" by (simp only: length_drop)
    then have "off \<le> length (zip D_all I_all)" by linarith
    then have "drop off (zip D_all I_all) ! n = zip D_all I_all ! (off + n)"
      by (rule nth_drop)
    with that n1 show ?thesis unfolding DI pos by simp
  qed
qed

lemma fuzzy_rows_words:
  assumes "fuzzy_rows L esb tb = (dws, DI_batch)"
  shows "\<exists>nfs wc. collect_words L esb tb = (nfs, wc, dws)"
  using assms unfolding fuzzy_rows_def by (auto simp: Let_def split: prod.splits)

lemma fuzzy_rows_lengths:
  assumes "fuzzy_rows L esb tb = (dws, DI_batch)"
  shows "length dws = length (zip esb tb)" and "length DI_batch = length esb"
    and "spec_query L esb tb = [] \<Longrightarrow> DI_batch = replicate (length esb) []"
proof -
  from assms have d: "dws = map (dw_app L dw_empty) (spec_batch_entries L 0 (zip esb tb))"
    and r: "DI_batch =
      chop (map (\<lambda>d. length (spec_absent L d)) (zip esb tb))
        (if spec_query L esb tb \<noteq> []
         then zip (fst (faiss_search L (spec_query L esb tb) (num_faiss_candidate_entities L)))
                (snd (faiss_search L (spec_query L esb tb) (num_faiss_candidate_entities L)))
         else []) @
      replicate (length esb - length (zip esb tb)) []"
    unfolding fuzzy_rows_spec by simp_all
  show "length dws = length (zip esb tb)"
    unfolding d by (simp add: length_spec_batch_entries)
  show "length DI_batch = length esb"
    unfolding r by (simp add: length_chop)
  show "DI_batch = replicate (length esb) []" if "spec_query L esb tb = []"
  proof -
    have "replicate (min (length esb) (length tb)) ([] :: row list) @
        replicate (length esb - min (length esb) (length tb)) [] = replicate (length esb) []"
      unfolding replicate_add [symmetric] by simp
    then show ?thesis unfolding r using that by (simp add: chop_Nil)
  qed
qed

text \<open>
  Claim C9, as amended. \<^verbatim>\<open>EntityLinkerSep\<close> (\<open>fuzzy_rows\<close> is the first half of
  \<open>link_entities\<close>, whose loop over the documents runs on what it returns): in a document
  each form (a word of a mention, and its normal form when that differs) is flagged with
  its presence in the inverted index. The forms that are absent, and only these, make the
  one query to the fuzzy index, for \<open>num_faiss_candidate_entities\<close> neighbours each; an
  absent form stands in the query at its position \<open>spec_pos\<close>, and there is no query and no
  row when no form is absent. When the loop over the forms of a document reaches a form, it
  looks up the form itself with similarity 1.0 if the form is in the inverted index, and
  otherwise the row that the fuzzy index returned at the form's position in the query, each
  distance \<open>d\<close> turned into \<open>1 - d\<close> when \<open>num_faiss_cells > 1\<close> and left as it is otherwise
  (\<^verbatim>\<open>IndexError\<close> when the answer has no such row). \<^verbatim>\<open>EntityLinker\<close>: all forms are sent to
  the fuzzy index (\<^verbatim>\<open>ValueError\<close> when there is none), and each distance is turned into a
  similarity by the same rule.
\<close>

theorem lookup_policy:
  assumes "fuzzy_rows L esb tb = (dws, DI_batch)"
    and "faiss_search L (spec_query L esb tb) (num_faiss_candidate_entities L) = (D_all, I_all)"
  shows "length dws = length (zip esb tb) \<and> length DI_batch = length esb \<and>
         (spec_query L esb tb = [] \<longrightarrow> DI_batch = replicate (length esb) []) \<and>
         (\<forall>k < length (zip esb tb).
            word_fnd_flags (dws ! k) = map (indexed L) (spec_doc_forms L (zip (esb ! k) (tb ! k))) \<and>
            fnd_words (dws ! k) = filter (indexed L) (spec_doc_forms L (zip (esb ! k) (tb ! k))) \<and>
            (\<forall>j < length (spec_doc_forms L (zip (esb ! k) (tb ! k))).
               (\<not> indexed L (spec_doc_forms L (zip (esb ! k) (tb ! k)) ! j) \<longrightarrow>
                  spec_pos L esb tb k j < length (spec_query L esb tb) \<and>
                  spec_query L esb tb ! spec_pos L esb tb k j =
                    spec_doc_forms L (zip (esb ! k) (tb ! k)) ! j) \<and>
               (\<forall>st. foldl_r (cand_step L (fnd_words (dws ! k)) (DI_batch ! k)) (cand_init index0)
                        (take j (loop_list (dws ! k))) = Inr st \<longrightarrow>
                  neighbours L (fnd_words (dws ! k)) (DI_batch ! k) st (word_fnd_flags (dws ! k) ! j) =
                    (if indexed L (spec_doc_forms L (zip (esb ! k) (tb ! k)) ! j)
                     then Inr [(Inl (spec_doc_forms L (zip (esb ! k) (tb ! k)) ! j), 1)]
                     else if spec_pos L esb tb k j < length (zip D_all I_all)
                     then Inr (spec_similarities L (zip D_all I_all ! spec_pos L esb tb k j))
                     else Inl IndexError)))) \<and>
         (\<forall>entity_substr_batch eob sb sob.
            esb = map (map (mention_words L)) entity_substr_batch \<longrightarrow>
            link_entities L entity_substr_batch tb eob sb sob =
              (case foldl_r (link_doc L) ([], None) (zip_docs esb eob sb sob dws tb DI_batch) of
                 Inl e \<Rightarrow> Inl e
               | Inr (results, index) \<Rightarrow> Inr (map fst results, map snd results))) \<and>
         el_search L esb tb =
           (if concat (map (\<lambda>d. spec_doc_forms L (zip (fst d) (snd d))) (zip esb tb)) = []
            then Inl ValueError
            else Inr (faiss_search L
                        (concat (map (\<lambda>d. spec_doc_forms L (zip (fst d) (snd d))) (zip esb tb)))
                        (num_faiss_candidate_entities L))) \<and>
         el_scores L scores_list =
           map (\<lambda>d. if num_faiss_cells L > 1 then 1 - d else d) scores_list"
proof -
  from fuzzy_rows_words [OF assms(1)] obtain nfs wc where
    cw: "collect_words L esb tb = (nfs, wc, dws)" by blast
  note lens = fuzzy_rows_lengths [OF assms(1)]
  have 2: "word_fnd_flags (dws ! k) = map (indexed L) (spec_doc_forms L (zip (esb ! k) (tb ! k))) \<and>
      fnd_words (dws ! k) = filter (indexed L) (spec_doc_forms L (zip (esb ! k) (tb ! k))) \<and>
      (\<forall>j < length (spec_doc_forms L (zip (esb ! k) (tb ! k))).
         (\<not> indexed L (spec_doc_forms L (zip (esb ! k) (tb ! k)) ! j) \<longrightarrow>
            spec_pos L esb tb k j < length (spec_query L esb tb) \<and>
            spec_query L esb tb ! spec_pos L esb tb k j =
              spec_doc_forms L (zip (esb ! k) (tb ! k)) ! j) \<and>
         (\<forall>st. foldl_r (cand_step L (fnd_words (dws ! k)) (DI_batch ! k)) (cand_init index0)
                  (take j (loop_list (dws ! k))) = Inr st \<longrightarrow>
            neighbours L (fnd_words (dws ! k)) (DI_batch ! k) st (word_fnd_flags (dws ! k) ! j) =
              (if indexed L (spec_doc_forms L (zip (esb ! k) (tb ! k)) ! j)
               then Inr [(Inl (spec_doc_forms L (zip (esb ! k) (tb ! k)) ! j), 1)]
               else if spec_pos L esb tb k j < length (zip D_all I_all)
               then Inr (spec_similarities L (zip D_all I_all ! spec_pos L esb tb k j))
               else Inl IndexError)))"
    if k: "k < length (zip esb tb)" for k
  proof -
    let ?forms = "spec_doc_forms L (zip (esb ! k) (tb ! k))"
    from k lens(1) have kd: "k < length dws" by simp
    from collect_words_nth [OF cw kd] obtain wc' where
      dw: "dws ! k = dw_app L dw_empty (spec_doc_entries L 0 wc' (zip (esb ! k) (tb ! k)))"
      by blast
    let ?es = "spec_doc_entries L 0 wc' (zip (esb ! k) (tb ! k))"
    have forms: "map entry_form ?es = ?forms"
      by (rule doc_entries_forms)
    have a: "word_fnd_flags (dws ! k) = map (indexed L) ?forms"
      unfolding dw forms [symmetric] by (simp add: dw_app_def dw_empty_def)
    have b: "fnd_words (dws ! k) = filter (indexed L) ?forms"
      unfolding dw forms [symmetric] by (simp add: dw_app_def dw_empty_def)
    have len: "length ?forms = length ?es"
      unfolding forms [symmetric] by simp
    have c: "(\<not> indexed L (?forms ! j) \<longrightarrow>
            spec_pos L esb tb k j < length (spec_query L esb tb) \<and>
            spec_query L esb tb ! spec_pos L esb tb k j = ?forms ! j) \<and>
         (\<forall>st. foldl_r (cand_step L (fnd_words (dws ! k)) (DI_batch ! k)) (cand_init index0)
                  (take j (loop_list (dws ! k))) = Inr st \<longrightarrow>
            neighbours L (fnd_words (dws ! k)) (DI_batch ! k) st (word_fnd_flags (dws ! k) ! j) =
              (if indexed L (?forms ! j)
               then Inr [(Inl (?forms ! j), 1)]
               else if spec_pos L esb tb k j < length (zip D_all I_all)
               then Inr (spec_similarities L (zip D_all I_all ! spec_pos L esb tb k j))
               else Inl IndexError))"
      if j: "j < length ?forms" for j
    proof -
      have fl: "word_fnd_flags (dws ! k) ! j = indexed L (?forms ! j)"
        unfolding a using j by simp
      have lk: "neighbours L (fnd_words (dws ! k)) (DI_batch ! k) st (indexed L (?forms ! j)) =
           (if indexed L (?forms ! j) then Inr [(Inl (?forms ! j), 1)]
            else if length (filter (\<lambda>w. \<not> indexed L w) (take j ?forms)) < length (DI_batch ! k)
            then Inr (spec_similarities L
                        (DI_batch ! k ! length (filter (\<lambda>w. \<not> indexed L w) (take j ?forms))))
            else Inl IndexError)"
        if "foldl_r (cand_step L (fnd_words (dws ! k)) (DI_batch ! k)) (cand_init index0)
                  (take j (loop_list (dws ! k))) = Inr st" for st
        using doc_lookup [of j ?es L "DI_batch ! k" index0 st] j that
        unfolding dw [symmetric] forms len by simp
      show ?thesis
      proof (cases "indexed L (?forms ! j)")
        case True
        with lk show ?thesis unfolding fl by simp
      next
        case False
        note row = fuzzy_row_of_form [OF assms(1) assms(2) k j False]
        from row(1) row(2) row(3) row(4) lk False show ?thesis
          unfolding fl by simp
      qed
    qed
    from a b c show ?thesis by blast
  qed
  have 3: "link_entities L entity_substr_batch tb eob sb sob =
      (case foldl_r (link_doc L) ([], None) (zip_docs esb eob sb sob dws tb DI_batch) of
         Inl e \<Rightarrow> Inl e
       | Inr (results, index) \<Rightarrow> Inr (map fst results, map snd results))"
    if "esb = map (map (mention_words L)) entity_substr_batch"
    for entity_substr_batch eob sb sob
    unfolding link_entities_def Let_def that [symmetric] assms(1) by simp
  from lens 2 3 el_search_spec [of L esb tb] el_scores_each [of L scores_list]
  show ?thesis by blast
qed

theorem lookup_policy_witness:
  "fuzzy_rows ex_linker [[[ex_moskva]], [[ex_moskvu]]] [[''LOC''], [''LOC'']] =
     ([ex_words, ex_words_nf1], [[], [([0.25], [0])]]) \<and>
   spec_query ex_linker [[[ex_moskva]], [[ex_moskvu]]] [[''LOC''], [''LOC'']] = [ex_moskvu] \<and>
   faiss_search ex_linker [ex_moskvu] (num_faiss_candidate_entities ex_linker) = ([[0.25]], [[0]]) \<and>
   spec_doc_forms ex_linker [([ex_moskvu], ''LOC'')] = [ex_moskvu] \<and>
   \<not> indexed ex_linker ex_moskvu \<and>
   spec_pos ex_linker [[[ex_moskva]], [[ex_moskvu]]] [[''LOC''], [''LOC'']] 1 0 = 0 \<and>
   neighbours ex_linker (fnd_words ex_words_nf1) [([0.25], [0])] (cand_init None) False =
     Inr [(Inr 0, 0.75)]"
proof -
  let ?esb = "[[[ex_moskva]], [[ex_moskvu]]]"
  let ?tb = "[[''LOC''], [''LOC'']]"
  have fr: "fuzzy_rows ex_linker ?esb ?tb = ([ex_words, ex_words_nf1], [[], [([0.25], [0])]])"
    by code_simp
  have q: "spec_query ex_linker ?esb ?tb = [ex_moskvu]"
    by code_simp
  have fs0: "faiss_search ex_linker [ex_moskvu] (num_faiss_candidate_entities ex_linker) =
      ([[0.25]], [[0]])"
    by (simp add: ex_linker_def)
  have fs: "faiss_search ex_linker (spec_query ex_linker ?esb ?tb)
      (num_faiss_candidate_entities ex_linker) = ([[0.25]], [[0]])"
    unfolding q by (rule fs0)
  have f: "spec_doc_forms ex_linker [([ex_moskvu], ''LOC'')] = [ex_moskvu]"
    by code_simp
  have i: "\<not> indexed ex_linker ex_moskvu"
    by code_simp
  have p: "spec_pos ex_linker ?esb ?tb 1 0 = 0"
    by code_simp
  have p': "spec_pos ex_linker ?esb ?tb (Suc 0) 0 = 0"
    using p by simp
  have k1: "1 < length (zip ?esb ?tb)" by simp
  have j0: "0 < length (spec_doc_forms ex_linker (zip (?esb ! 1) (?tb ! 1)))"
    using f by simp
  have l: "foldl_r (cand_step ex_linker (fnd_words ([ex_words, ex_words_nf1] ! 1))
               ([[], [([0.25], [0])]] ! 1))
             (cand_init None) (take 0 (loop_list ([ex_words, ex_words_nf1] ! 1))) =
           Inr (cand_init None)"
    by simp
  note per_form = lookup_policy [OF fr fs, where ?index0.0 = None, THEN conjunct2, THEN conjunct2,
      THEN conjunct2, THEN conjunct1, rule_format, OF k1, THEN conjunct2, THEN conjunct2,
      rule_format, OF j0, THEN conjunct2, rule_format, OF l]
  have cells: "num_faiss_cells ex_linker = 50"
    by (simp add: ex_linker_def)
  have fl: "word_fnd_flags ex_words_nf1 = [False]"
    by (simp add: ex_words_nf1_def)
  from per_form
  have "neighbours ex_linker (fnd_words ex_words_nf1) [([0.25], [0])] (cand_init None) False =
     Inr [(Inr 0, 0.75)]"
    by (simp add: f i p p' fl spec_similarities_def cells)
  with fr q fs0 f i p show ?thesis by blast
qed

text \<open>
  Claim C9 as stated fails on \<^verbatim>\<open>EntityLinker\<close>: the word "moskva" is in the inverted index
  of the example, and the fuzzy index is queried for it all the same.
\<close>

theorem lookup_policy_counterexample:
  "indexed ex_linker ex_moskva \<and>
   map fst (el_words_doc_nums ex_linker [[[ex_moskva]]] [[''LOC'']]) = [ex_moskva] \<and>
   el_search ex_linker [[[ex_moskva]]] [[''LOC'']] = Inr (faiss_search ex_linker [ex_moskva] 20)"
  by code_simp

end
